theory Spec2Isabelle
  imports Main "HOL-Library.Char_ord" "HOL-Library.List_Lexorder" "HOL-Library.Product_Lexorder"
    "HOL-Library.Multiset"
begin

section \<open>Strings of the metadata tools\<close>

text \<open>
  A Python \<open>str\<close> is modelled as a \<open>string\<close> whose characters are the code points
  below 256, one \<open>char\<close> per code point, so that \<open>len\<close> is \<open>length\<close>. On that range the
  decimal digits of \<open>\d\<close>, \<open>int\<close> and \<open>zfill\<close> are exactly \<open>0\<close> to \<open>9\<close>.
\<close>

definition is_digit :: "char \<Rightarrow> bool" where
  "is_digit c = (c \<in> set ''0123456789'')"

text \<open>\<open>str.isspace\<close> on one code point; also the class \<open>\s\<close> of a \<open>str\<close> pattern.\<close>

definition is_space :: "char \<Rightarrow> bool" where
  "is_space c = (let n = (of_char c :: nat) in
     (9 \<le> n \<and> n \<le> 13) \<or> (28 \<le> n \<and> n \<le> 32) \<or> n = 133 \<or> n = 160)"

text \<open>The class \<open>\w\<close> of a \<open>str\<close> pattern: alphanumeric code points and the underscore.\<close>

definition is_word :: "char \<Rightarrow> bool" where
  "is_word c = (let n = (of_char c :: nat) in
     (48 \<le> n \<and> n \<le> 57) \<or> (65 \<le> n \<and> n \<le> 90) \<or> n = 95 \<or> (97 \<le> n \<and> n \<le> 122) \<or>
     n = 170 \<or> n = 178 \<or> n = 179 \<or> n = 181 \<or> n = 185 \<or> n = 186 \<or>
     (188 \<le> n \<and> n \<le> 190) \<or> (192 \<le> n \<and> n \<le> 214) \<or> (216 \<le> n \<and> n \<le> 246) \<or> 248 \<le> n)"

text \<open>\<open>str.lower\<close> on one code point.\<close>

definition lower_chr :: "char \<Rightarrow> char" where
  "lower_chr c = (let n = (of_char c :: nat) in
     if (65 \<le> n \<and> n \<le> 90) \<or> (192 \<le> n \<and> n \<le> 222 \<and> n \<noteq> 215) then char_of (n + 32) else c)"

definition lower :: "string \<Rightarrow> string" where
  "lower s = map lower_chr s"

definition strip :: "string \<Rightarrow> string" where
  "strip s = rev (dropWhile is_space (rev (dropWhile is_space s)))"

definition endswith :: "string \<Rightarrow> string \<Rightarrow> bool" where
  "endswith s suffix = (length suffix \<le> length s \<and> drop (length s - length suffix) s = suffix)"

text \<open>\<open>str.zfill\<close>: zeros go after a leading sign.\<close>

definition zfill :: "nat \<Rightarrow> string \<Rightarrow> string" where
  "zfill width s =
     (case s of
        c # cs \<Rightarrow> if c = CHR ''+'' \<or> c = CHR ''-''
                  then c # replicate (width - length s) CHR ''0'' @ cs
                  else replicate (width - length s) CHR ''0'' @ s
      | [] \<Rightarrow> replicate width CHR ''0'')"

definition digit_val :: "char \<Rightarrow> nat" where
  "digit_val c = of_char c - 48"

text \<open>\<open>int(s)\<close> on a string of decimal digits.\<close>

definition int_of_digits :: "string \<Rightarrow> nat" where
  "int_of_digits s = foldl (\<lambda>n c. 10 * n + digit_val c) 0 s"

definition digit_chr :: "nat \<Rightarrow> char" where
  "digit_chr d = char_of (48 + d)"

fun dec :: "nat \<Rightarrow> string" where
  "dec n = (if n < 10 then [digit_chr n] else dec (n div 10) @ [digit_chr (n mod 10)])"

declare dec.simps [simp del]

text \<open>The format specification \<open>{n:0wd}\<close> of an f-string, for a natural number.\<close>

definition fmt_d :: "nat \<Rightarrow> nat \<Rightarrow> string" where
  "fmt_d width n = replicate (width - length (dec n)) CHR ''0'' @ dec n"


section \<open>The regular expressions of module \<open>re\<close>\<close>

text \<open>
  The patterns of the tools use character classes, bounded and unbounded repetition of one
  class (greedy or lazy), sequence, alternation, capturing groups and the anchors \<open>^\<close>,
  \<open>$\<close> and \<open>\b\<close>. The matcher is the backtracking one of \<open>re\<close>: it lists the ways a
  pattern matches at a position in the order in which \<open>re\<close> tries them, and the match is
  the first of the list.
\<close>

datatype cclass =
    Digit
  | Space
  | AnyChar
  | Lit char
  | OneOf "char list"
  | NoneOf "char list"

datatype regex =
    Cls cclass
  | Rep cclass nat "nat option" bool
  | Seq regex regex
  | Alt regex regex
  | Group regex
  | Bol
  | Eol
  | WordB
  | Eps

definition chr_eq :: "bool \<Rightarrow> char \<Rightarrow> char \<Rightarrow> bool" where
  "chr_eq ic c x = (if ic then lower_chr c = lower_chr x else c = x)"

text \<open>Whether a character belongs to a class; \<open>ic\<close> is the flag \<open>re.I\<close>.\<close>

fun cc_ok :: "bool \<Rightarrow> cclass \<Rightarrow> char \<Rightarrow> bool" where
  "cc_ok ic Digit x = is_digit x"
| "cc_ok ic Space x = is_space x"
| "cc_ok ic AnyChar x = (x \<noteq> CHR 0x0A)"
| "cc_ok ic (Lit c) x = chr_eq ic c x"
| "cc_ok ic (OneOf cs) x = (\<exists>c \<in> set cs. chr_eq ic c x)"
| "cc_ok ic (NoneOf cs) x = (\<not> (\<exists>c \<in> set cs. chr_eq ic c x))"

text \<open>
  A matcher state: the text before the position, reversed; the text from the position on;
  the groups captured so far.
\<close>

type_synonym mstate = "string \<times> string \<times> string list"

text \<open>
  \<open>rep ic c lo hi greedy pre rest\<close>: the ways to match between \<open>lo\<close> and \<open>hi\<close> characters
  of class \<open>c\<close> (\<open>hi = None\<close>: no upper bound), the longest first when greedy, the shortest
  first when lazy.
\<close>

fun rep :: "bool \<Rightarrow> cclass \<Rightarrow> nat \<Rightarrow> nat option \<Rightarrow> bool \<Rightarrow> string \<Rightarrow> string \<Rightarrow> (string \<times> string) list" where
  "rep ic c lo hi greedy pre [] = (if lo = 0 then [(pre, [])] else [])"
| "rep ic c lo hi greedy pre (x # xs) =
     (let stop = (if lo = 0 then [(pre, x # xs)] else []);
          more = (if hi \<noteq> Some 0 \<and> cc_ok ic c x
                  then rep ic c (lo - 1) (map_option (\<lambda>h. h - 1) hi) greedy (x # pre) xs
                  else [])
      in if greedy then more @ stop else stop @ more)"

definition at_word_boundary :: "string \<Rightarrow> string \<Rightarrow> bool" where
  "at_word_boundary pre rest =
     ((case pre of [] \<Rightarrow> False | p # _ \<Rightarrow> is_word p) \<noteq> (case rest of [] \<Rightarrow> False | r # _ \<Rightarrow> is_word r))"

fun mt :: "bool \<Rightarrow> regex \<Rightarrow> mstate \<Rightarrow> mstate list" where
  "mt ic (Cls c) (pre, rest, gs) =
     (case rest of [] \<Rightarrow> [] | x # xs \<Rightarrow> if cc_ok ic c x then [(x # pre, xs, gs)] else [])"
| "mt ic (Rep c lo hi greedy) (pre, rest, gs) =
     map (\<lambda>(p, r). (p, r, gs)) (rep ic c lo hi greedy pre rest)"
| "mt ic (Seq a b) st = concat (map (mt ic b) (mt ic a st))"
| "mt ic (Alt a b) st = mt ic a st @ mt ic b st"
| "mt ic (Group a) (pre, rest, gs) =
     map (\<lambda>(p, r, gs'). (p, r, gs' @ [rev (take (length p - length pre) p)]))
       (mt ic a (pre, rest, gs))"
| "mt ic Bol (pre, rest, gs) = (if pre = [] then [(pre, rest, gs)] else [])"
| "mt ic Eol (pre, rest, gs) = (if rest = [] \<or> rest = [CHR 0x0A] then [(pre, rest, gs)] else [])"
| "mt ic WordB (pre, rest, gs) = (if at_word_boundary pre rest then [(pre, rest, gs)] else [])"
| "mt ic Eps st = [st]"

definition cat :: "regex list \<Rightarrow> regex" where
  "cat rs = foldr Seq rs Eps"

text \<open>\<open>re.match(pattern, s)\<close>, as the tuple \<open>match.groups()\<close>; \<open>None\<close> when there is no match.\<close>

definition re_match :: "bool \<Rightarrow> regex \<Rightarrow> string \<Rightarrow> string list option" where
  "re_match ic r s = (case mt ic r ([], s, []) of [] \<Rightarrow> None | (p, rest, gs) # _ \<Rightarrow> Some gs)"

text \<open>\<open>re.search\<close>: the match at the leftmost position that has one.\<close>

fun search_from :: "bool \<Rightarrow> regex \<Rightarrow> string \<Rightarrow> string \<Rightarrow> string list option" where
  "search_from ic r pre [] = (case mt ic r (pre, [], []) of [] \<Rightarrow> None | (p, rest, gs) # _ \<Rightarrow> Some gs)"
| "search_from ic r pre (x # xs) =
     (case mt ic r (pre, x # xs, []) of
        [] \<Rightarrow> search_from ic r (x # pre) xs
      | (p, rest, gs) # _ \<Rightarrow> Some gs)"

definition re_search :: "bool \<Rightarrow> regex \<Rightarrow> string \<Rightarrow> string list option" where
  "re_search ic r s = search_from ic r [] s"

text \<open>Repetitions as the patterns write them.\<close>

definition digits :: "nat \<Rightarrow> nat \<Rightarrow> regex" where
  "digits lo hi = Rep Digit lo (Some hi) True"

definition chr :: "char \<Rightarrow> regex" where
  "chr c = Cls (Lit c)"


section \<open>Date canonicalisation (\<open>analyze_metadata.py\<close>)\<close>

subsection \<open>\<open>standardize_date\<close>\<close>

text \<open>\<open>^(\d{1,2})/(\d{1,2})/(\d{2})$\<close>\<close>

definition mmddyy_re :: regex where
  "mmddyy_re = cat [Bol, Group (digits 1 2), chr CHR ''/'', Group (digits 1 2), chr CHR ''/'',
                    Group (digits 2 2), Eol]"

text \<open>\<open>^(\d{1,2})/(\d{1,2})/(\d{4})$\<close>\<close>

definition mmddyyyy_re :: regex where
  "mmddyyyy_re = cat [Bol, Group (digits 1 2), chr CHR ''/'', Group (digits 1 2), chr CHR ''/'',
                      Group (digits 4 4), Eol]"

text \<open>\<open>^(\d{1,2})\.(\d{1,2})\.(\d{2})$\<close>\<close>

definition ddmmyy_re :: regex where
  "ddmmyy_re = cat [Bol, Group (digits 1 2), chr CHR ''.'', Group (digits 1 2), chr CHR ''.'',
                    Group (digits 2 2), Eol]"

text \<open>\<open>^(\d{1,2})\.(\d{1,2})\.(\d{4})$\<close>\<close>

definition ddmmyyyy_re :: regex where
  "ddmmyyyy_re = cat [Bol, Group (digits 1 2), chr CHR ''.'', Group (digits 1 2), chr CHR ''.'',
                      Group (digits 4 4), Eol]"

text \<open>\<open>^(\d{4}-\d{2}-\d{2})T\<close>\<close>

definition iso_date_re :: regex where
  "iso_date_re = cat [Bol, Group (cat [digits 4 4, chr CHR ''-'', digits 2 2, chr CHR ''-'', digits 2 2]),
                      chr CHR ''T'']"

text \<open>\<open>^\d{4}-\d{2}-\d{2}$\<close>\<close>

definition yyyymmdd_re :: regex where
  "yyyymmdd_re = cat [Bol, digits 4 4, chr CHR ''-'', digits 2 2, chr CHR ''-'', digits 2 2, Eol]"

text \<open>\<open>^\d{4}$\<close>\<close>

definition yyyy_re :: regex where
  "yyyy_re = cat [Bol, digits 4 4, Eol]"

text \<open>
  The function returns its argument when no shape is recognised (and prints a notice,
  which the model leaves out).
\<close>

definition standardize_date :: "string \<Rightarrow> string" where
  "standardize_date date_str =
     (if date_str = [] then date_str
      else case re_match False mmddyy_re date_str of
        Some g \<Rightarrow> ''20'' @ g ! 2 @ ''-'' @ zfill 2 (g ! 0) @ ''-'' @ zfill 2 (g ! 1)
      | None \<Rightarrow>
      (case re_match False mmddyyyy_re date_str of
        Some g \<Rightarrow> g ! 2 @ ''-'' @ zfill 2 (g ! 0) @ ''-'' @ zfill 2 (g ! 1)
      | None \<Rightarrow>
      (case re_match False ddmmyy_re date_str of
        Some g \<Rightarrow> ''20'' @ g ! 2 @ ''-'' @ zfill 2 (g ! 1) @ ''-'' @ zfill 2 (g ! 0)
      | None \<Rightarrow>
      (case re_match False ddmmyyyy_re date_str of
        Some g \<Rightarrow> g ! 2 @ ''-'' @ zfill 2 (g ! 1) @ ''-'' @ zfill 2 (g ! 0)
      | None \<Rightarrow>
      (case re_match False iso_date_re date_str of
        Some g \<Rightarrow> g ! 0
      | None \<Rightarrow>
      (case re_match False yyyymmdd_re date_str of
        Some g \<Rightarrow> date_str
      | None \<Rightarrow>
      (case re_match False yyyy_re date_str of
        Some g \<Rightarrow> date_str @ ''-01-01''
      | None \<Rightarrow> date_str)))))))"

subsection \<open>\<open>datetime.strptime\<close>\<close>

text \<open>
  The pattern that \<open>strptime\<close> builds for a directive: \<open>%Y\<close> is \<open>(\d\d\d\d)\<close>, \<open>%y\<close> is
  \<open>(\d\d)\<close>, \<open>%m\<close> is \<open>(1[0-2]|0[1-9]|[1-9])\<close> and \<open>%d\<close> is
  \<open>(3[0-1]|[1-2]\d|0[1-9]|[1-9]| [1-9])\<close>. Any other directive is absent from the tools.
\<close>

definition directive :: "char \<Rightarrow> regex option" where
  "directive d =
     (if d = CHR ''Y'' then Some (Group (cat [Cls Digit, Cls Digit, Cls Digit, Cls Digit]))
      else if d = CHR ''y'' then Some (Group (cat [Cls Digit, Cls Digit]))
      else if d = CHR ''m'' then Some (Group
        (Alt (cat [chr CHR ''1'', Cls (OneOf ''012'')])
        (Alt (cat [chr CHR ''0'', Cls (OneOf ''123456789'')])
             (Cls (OneOf ''123456789'')))))
      else if d = CHR ''d'' then Some (Group
        (Alt (cat [chr CHR ''3'', Cls (OneOf ''01'')])
        (Alt (cat [Cls (OneOf ''12''), Cls Digit])
        (Alt (cat [chr CHR ''0'', Cls (OneOf ''123456789'')])
        (Alt (Cls (OneOf ''123456789''))
             (cat [chr CHR '' '', Cls (OneOf ''123456789'')]))))))
      else None)"

text \<open>The pattern of a format, with the directives in their order; \<open>None\<close> for a bad directive.\<close>

fun format_regex :: "string \<Rightarrow> (regex \<times> char list) option" where
  "format_regex [] = Some (Eps, [])"
| "format_regex [c] = (if c = CHR ''%'' then None else Some (chr c, []))"
| "format_regex (c # d # fs) =
     (if c = CHR ''%''
      then (case directive d of
              None \<Rightarrow> None
            | Some r \<Rightarrow> map_option (\<lambda>(rs, ds). (Seq r rs, d # ds)) (format_regex fs))
      else map_option (\<lambda>(rs, ds). (Seq (chr c) rs, ds)) (format_regex (d # fs)))"

definition is_leap :: "nat \<Rightarrow> bool" where
  "is_leap y = (y mod 4 = 0 \<and> (y mod 100 \<noteq> 0 \<or> y mod 400 = 0))"

definition days_in_month :: "nat \<Rightarrow> nat \<Rightarrow> nat" where
  "days_in_month y m =
     (if m = 2 then (if is_leap y then 29 else 28)
      else if m = 4 \<or> m = 6 \<or> m = 9 \<or> m = 11 then 30 else 31)"

text \<open>The check of the \<open>date\<close> constructor (\<open>MINYEAR = 1\<close>, \<open>MAXYEAR = 9999\<close>).\<close>

definition valid_date :: "nat \<Rightarrow> nat \<Rightarrow> nat \<Rightarrow> bool" where
  "valid_date y m d = (1 \<le> y \<and> y \<le> 9999 \<and> 1 \<le> m \<and> m \<le> 12 \<and> 1 \<le> d \<and> d \<le> days_in_month y m)"

text \<open>
  \<open>datetime.strptime(data_string, format)\<close> as (year, month, day). \<open>None\<close> is the
  \<open>ValueError\<close>: the pattern does not match, text remains after the match, or the date does
  not exist. A two-digit year up to 68 is in the century 2000, from 69 on in the century 1900.
\<close>

definition strptime :: "string \<Rightarrow> string \<Rightarrow> (nat \<times> nat \<times> nat) option" where
  "strptime data_string format =
     (case format_regex format of
        None \<Rightarrow> None
      | Some (r, ds) \<Rightarrow>
         (case mt True r ([], data_string, []) of
            [] \<Rightarrow> None
          | (p, rest, gs) # _ \<Rightarrow>
             if rest \<noteq> [] then None
             else let found = map_of (zip ds gs);
                      year = (case found CHR ''y'' of
                                Some y \<Rightarrow> (if int_of_digits y \<le> 68 then int_of_digits y + 2000
                                           else int_of_digits y + 1900)
                              | None \<Rightarrow> (case found CHR ''Y'' of Some y \<Rightarrow> int_of_digits y | None \<Rightarrow> 1900));
                      month = (case found CHR ''m'' of Some m \<Rightarrow> int_of_digits m | None \<Rightarrow> 1);
                      day = (case found CHR ''d'' of Some d \<Rightarrow> int_of_digits (strip d) | None \<Rightarrow> 1)
                  in if valid_date year month day then Some (year, month, day) else None))"

subsection \<open>\<open>extract_date_from_title\<close>\<close>

text \<open>The ordered list \<open>patterns\<close>: each pattern with its date format.\<close>

definition date_patterns :: "(regex \<times> string) list" where
  "date_patterns =
     [(Group (cat [digits 4 4, chr CHR ''-'', digits 2 2, chr CHR ''-'', digits 2 2]), ''%Y-%m-%d''),
      (Group (cat [digits 1 2, chr CHR ''/'', digits 1 2, chr CHR ''/'', digits 4 4]), ''%m/%d/%Y''),
      (Group (cat [digits 1 2, chr CHR ''.'', digits 1 2, chr CHR ''.'', digits 4 4]), ''%m.%d.%Y''),
      (Group (cat [digits 1 2, chr CHR ''/'', digits 1 2, chr CHR ''/'', digits 2 2]), ''%m/%d/%y''),
      (Group (cat [digits 1 2, chr CHR ''.'', digits 1 2, chr CHR ''.'', digits 2 2]), ''%m.%d.%y''),
      (Group (digits 4 4), ''%Y'')]"

text \<open>
  The body of the \<open>try\<close> block for one matched \<open>date_str\<close>; \<open>None\<close> is the \<open>ValueError\<close>
  that makes the loop \<open>continue\<close>. The branch for the two-digit year formats and the one for
  the four-digit year formats are the same two statements.
\<close>

definition convert_match :: "string \<Rightarrow> string \<Rightarrow> string option" where
  "convert_match date_format date_str =
     (if date_format = ''%Y'' then Some (date_str @ ''-01-01'')
      else if endswith date_format ''%y''
      then map_option (\<lambda>(y, m, d). fmt_d 4 y @ ''-'' @ fmt_d 2 m @ ''-'' @ fmt_d 2 d)
             (strptime date_str date_format)
      else map_option (\<lambda>(y, m, d). fmt_d 4 y @ ''-'' @ fmt_d 2 m @ ''-'' @ fmt_d 2 d)
             (strptime date_str date_format))"

fun extract_loop :: "(regex \<times> string) list \<Rightarrow> string \<Rightarrow> string option" where
  "extract_loop [] title = None"
| "extract_loop ((pattern, date_format) # ps) title =
     (case re_search False pattern title of
        None \<Rightarrow> extract_loop ps title
      | Some g \<Rightarrow>
         (case convert_match date_format (g ! 0) of
            Some r \<Rightarrow> Some r
          | None \<Rightarrow> extract_loop ps title))"

definition extract_date_from_title :: "string \<Rightarrow> string option" where
  "extract_date_from_title title = (if title = [] then None else extract_loop date_patterns title)"


section \<open>Title field extraction (\<open>analyze_metadata.py\<close>)\<close>

definition spaces :: "nat \<Rightarrow> regex" where
  "spaces lo = Rep Space lo None True"

text \<open>\<open>^([^@]+?)\s*@\<close>, \<open>^(.+?)\s+on\s+\d\<close> and \<open>^(.+?)\s+in\s+\d\<close>\<close>

definition band_patterns :: "regex list" where
  "band_patterns =
     [cat [Bol, Group (Rep (NoneOf ''@'') 1 None False), spaces 0, chr CHR ''@''],
      cat [Bol, Group (Rep AnyChar 1 None False), spaces 1, chr CHR ''o'', chr CHR ''n'', spaces 1, Cls Digit],
      cat [Bol, Group (Rep AnyChar 1 None False), spaces 1, chr CHR ''i'', chr CHR ''n'', spaces 1, Cls Digit]]"

fun band_loop :: "regex list \<Rightarrow> string \<Rightarrow> string option" where
  "band_loop [] title = None"
| "band_loop (pattern # ps) title =
     (case re_search False pattern title of
        None \<Rightarrow> band_loop ps title
      | Some g \<Rightarrow>
         if g ! 0 \<noteq> [] then
           (let band_name = strip (g ! 0) in
            if length band_name > 2 \<and> lower band_name \<notin> set [''live'', ''show'', ''concert'', ''performance'']
            then Some band_name
            else band_loop ps title)
         else band_loop ps title)"

definition extract_band_from_title :: "string \<Rightarrow> string option" where
  "extract_band_from_title title = (if title = [] then None else band_loop band_patterns title)"

text \<open>The tail \<open>(?:\s+on\s|\s+\[|\s+\d{4}|$)\<close> of the fallback venue patterns.\<close>

definition venue_stop :: regex where
  "venue_stop =
     Alt (cat [spaces 1, chr CHR ''o'', chr CHR ''n'', Cls Space])
    (Alt (cat [spaces 1, chr CHR ''['']) 
    (Alt (cat [spaces 1, digits 4 4])
         Eol))"

text \<open>
  \<open>@\s+([^(]+?)\s*\(\<close>, \<open>@\s+(.+?)(?:\s+on\s|\s+\[|\s+\d{4}|$)\<close>, then the same two after
  \<open>\bat\s+\<close> and after \<open>live\s+at\s+\<close>; all are searched with \<open>re.I\<close>.
\<close>

definition venue_patterns :: "regex list" where
  "venue_patterns =
     [cat [chr CHR ''@'', spaces 1, Group (Rep (NoneOf ''('') 1 None False), spaces 0, chr CHR ''(''],
      cat [chr CHR ''@'', spaces 1, Group (Rep AnyChar 1 None False), venue_stop],
      cat [WordB, chr CHR ''a'', chr CHR ''t'', spaces 1, Group (Rep (NoneOf ''('') 1 None False),
           spaces 0, chr CHR ''(''],
      cat [WordB, chr CHR ''a'', chr CHR ''t'', spaces 1, Group (Rep AnyChar 1 None False), venue_stop],
      cat [chr CHR ''l'', chr CHR ''i'', chr CHR ''v'', chr CHR ''e'', spaces 1, chr CHR ''a'', chr CHR ''t'',
           spaces 1, Group (Rep (NoneOf ''('') 1 None False), spaces 0, chr CHR ''(''],
      cat [chr CHR ''l'', chr CHR ''i'', chr CHR ''v'', chr CHR ''e'', spaces 1, chr CHR ''a'', chr CHR ''t'',
           spaces 1, Group (Rep AnyChar 1 None False), venue_stop]]"

text \<open>
  \<open>re.sub(pattern, '', s)\<close> for a pattern that matches no empty text: every match, from
  left to right, is removed.
\<close>

fun sub_from :: "bool \<Rightarrow> regex \<Rightarrow> string \<Rightarrow> nat \<Rightarrow> string \<Rightarrow> string" where
  "sub_from ic r pre skip [] = []"
| "sub_from ic r pre skip (x # xs) =
     (if skip > 0 then sub_from ic r (x # pre) (skip - 1) xs
      else case mt ic r (pre, x # xs, []) of
             [] \<Rightarrow> x # sub_from ic r (x # pre) 0 xs
           | (p, rest, gs) # _ \<Rightarrow>
               if length p - length pre = 0 then x # sub_from ic r (x # pre) 0 xs
               else sub_from ic r (x # pre) (length p - length pre - 1) xs)"

definition re_sub_empty :: "bool \<Rightarrow> regex \<Rightarrow> string \<Rightarrow> string" where
  "re_sub_empty ic r s = sub_from ic r [] 0 s"

text \<open>\<open>\s*\([^)]*\)\<close>\<close>

definition paren_re :: regex where
  "paren_re = cat [spaces 0, chr CHR ''('', Rep (NoneOf '')'') 0 None True, chr CHR '')'']"

fun venue_loop :: "regex list \<Rightarrow> string \<Rightarrow> string option" where
  "venue_loop [] title = None"
| "venue_loop (pattern # ps) title =
     (case re_search True pattern title of
        None \<Rightarrow> venue_loop ps title
      | Some g \<Rightarrow>
         if g ! 0 \<noteq> [] then
           (let venue = strip (re_sub_empty False paren_re (strip (g ! 0))) in
            if length venue > 2 then Some venue else venue_loop ps title)
         else venue_loop ps title)"

definition extract_venue_from_title :: "string \<Rightarrow> string option" where
  "extract_venue_from_title title = (if title = [] then None else venue_loop venue_patterns title)"


section \<open>Issue detection (\<open>analyze_items\<close>)\<close>

text \<open>One document of the search response; \<open>None\<close> is an absent key.\<close>

record item =
  it_identifier :: "string option"
  it_title :: "string option"
  it_band :: "string option"
  it_venue :: "string option"
  it_date :: "string option"
  it_publicdate :: "string option"

datatype issue = missing_band | missing_venue | missing_date | bad_date_format

record current =
  c_band :: "string option"
  c_venue :: "string option"
  c_date :: "string option"

record issue_record =
  i_identifier :: string
  i_title :: string
  i_current :: current
  i_issues :: "issue list"
  i_suggestions :: "string \<rightharpoonup> string"

text \<open>Truth value of an optional string: \<open>None\<close> and the empty string are false.\<close>

definition truthy :: "string option \<Rightarrow> bool" where
  "truthy v = (case v of None \<Rightarrow> False | Some s \<Rightarrow> s \<noteq> [])"

text \<open>\<open>a or b\<close>\<close>

definition py_or :: "string option \<Rightarrow> string option \<Rightarrow> string option" where
  "py_or a b = (if truthy a then a else b)"

text \<open>\<open>item.get(key, '')\<close>\<close>

definition get_or_empty :: "string option \<Rightarrow> string" where
  "get_or_empty v = (case v of None \<Rightarrow> [] | Some s \<Rightarrow> s)"

type_synonym findings = "issue list \<times> (string \<rightharpoonup> string)"

definition check_band :: "item \<Rightarrow> string \<Rightarrow> findings \<Rightarrow> findings" where
  "check_band it title f =
     (case f of (issues, suggestions) \<Rightarrow>
        if \<not> truthy (it_band it) then
          (case extract_band_from_title title of
             Some suggested_band \<Rightarrow>
               if suggested_band \<noteq> []
               then (issues @ [missing_band], suggestions(''band'' \<mapsto> suggested_band))
               else (issues, suggestions)
           | None \<Rightarrow> (issues, suggestions))
        else (issues, suggestions))"

definition check_venue :: "item \<Rightarrow> string \<Rightarrow> findings \<Rightarrow> findings" where
  "check_venue it title f =
     (case f of (issues, suggestions) \<Rightarrow>
        if \<not> truthy (it_venue it) then
          (case extract_venue_from_title title of
             Some suggested_venue \<Rightarrow>
               if suggested_venue \<noteq> []
               then (issues @ [missing_venue], suggestions(''venue'' \<mapsto> suggested_venue))
               else (issues, suggestions)
           | None \<Rightarrow> (issues, suggestions))
        else (issues, suggestions))"

definition check_date :: "item \<Rightarrow> string \<Rightarrow> findings \<Rightarrow> findings" where
  "check_date it title f =
     (case f of (issues, suggestions) \<Rightarrow>
        if \<not> truthy (py_or (it_date it) (it_publicdate it)) then
          (case extract_date_from_title title of
             Some suggested_date \<Rightarrow>
               if suggested_date \<noteq> []
               then (issues @ [missing_date], suggestions(''date'' \<mapsto> suggested_date))
               else (issues, suggestions)
           | None \<Rightarrow> (issues, suggestions))
        else
          (let date_to_check = get_or_empty (py_or (it_date it) (it_publicdate it));
               standardized_date = standardize_date date_to_check;
               title_date = extract_date_from_title title
           in if truthy title_date \<and> endswith standardized_date ''-01-01''
                 \<and> \<not> endswith (get_or_empty title_date) ''-01-01''
              then (if standardized_date \<noteq> get_or_empty title_date
                    then (issues @ [bad_date_format], suggestions(''date'' \<mapsto> get_or_empty title_date))
                    else (issues, suggestions))
              else if standardized_date \<noteq> date_to_check
              then (issues @ [bad_date_format], suggestions(''date'' \<mapsto> standardized_date))
              else (issues, suggestions)))"

text \<open>The body of the loop of \<open>analyze_items\<close>: the entry appended to \<open>self.issues\<close>, if any.\<close>

definition analyze_item :: "item \<Rightarrow> issue_record option" where
  "analyze_item it =
     (let identifier = get_or_empty (it_identifier it);
          title = get_or_empty (it_title it)
      in case check_date it title (check_venue it title (check_band it title ([], Map.empty))) of
           (issues, suggestions) \<Rightarrow>
             if issues \<noteq> []
             then Some \<lparr>i_identifier = identifier, i_title = title,
                        i_current = \<lparr>c_band = it_band it, c_venue = it_venue it,
                                      c_date = py_or (it_date it) (it_publicdate it)\<rparr>,
                        i_issues = issues, i_suggestions = suggestions\<rparr>
             else None)"

definition analyze_items :: "item list \<Rightarrow> issue_record list" where
  "analyze_items items = List.map_filter analyze_item items"

subsection \<open>Review order (\<open>sort_issues_by_type\<close>)\<close>





section \<open>Dates in identifiers and titles (\<open>audit_date_mismatches.py\<close>, \<open>fix_date_suggestions.py\<close>)\<close>

text \<open>
  The three parsers share the body of their loop: three groups are month, day and year, a
  two-digit year gets the prefix 20; one group is the date itself.
\<close>

definition date_of_groups :: "string list \<Rightarrow> string" where
  "date_of_groups g =
     (if length g = 3 then
        (let month = g ! 0; day = g ! 1; year = g ! 2;
             year = (if length year = 2 then ''20'' @ year else year)
         in year @ ''-'' @ zfill 2 month @ ''-'' @ zfill 2 day)
      else g ! 0)"

fun match_loop :: "regex list \<Rightarrow> string \<Rightarrow> string option" where
  "match_loop [] s = None"
| "match_loop (pattern # ps) s =
     (case re_match False pattern s of
        Some g \<Rightarrow> Some (date_of_groups g)
      | None \<Rightarrow> match_loop ps s)"

fun search_loop :: "regex list \<Rightarrow> string \<Rightarrow> string option" where
  "search_loop [] s = None"
| "search_loop (pattern # ps) s =
     (case re_search False pattern s of
        Some g \<Rightarrow> Some (date_of_groups g)
      | None \<Rightarrow> search_loop ps s)"

text \<open>\<open>^(\d{2})\.(\d{2})\.(\d{2})_\<close>, \<open>^(\d{1,2})\.(\d{1,2})\.(\d{2})_\<close>, \<open>^(\d{4}-\d{2}-\d{2})-\<close>\<close>

definition identifier_patterns :: "regex list" where
  "identifier_patterns =
     [cat [Bol, Group (digits 2 2), chr CHR ''.'', Group (digits 2 2), chr CHR ''.'', Group (digits 2 2),
           chr CHR ''_''],
      cat [Bol, Group (digits 1 2), chr CHR ''.'', Group (digits 1 2), chr CHR ''.'', Group (digits 2 2),
           chr CHR ''_''],
      cat [Bol, Group (cat [digits 4 4, chr CHR ''-'', digits 2 2, chr CHR ''-'', digits 2 2]),
           chr CHR ''-'']]"

definition parse_date_from_identifier :: "string \<Rightarrow> string option" where
  "parse_date_from_identifier identifier = match_loop identifier_patterns identifier"

text \<open>
  The auditor's title patterns: \<open>on (\d{2})\.(\d{2})\.(\d{2})\<close>,
  \<open>on (\d{1,2})/(\d{1,2})/(\d{2,4})\<close>, \<open>(\d{4}-\d{2}-\d{2})\<close>, \<open>on (\d{2})-(\d{2})-(\d{2})\<close>.
\<close>

definition audit_title_patterns :: "regex list" where
  "audit_title_patterns =
     [cat [chr CHR ''o'', chr CHR ''n'', chr CHR '' '', Group (digits 2 2), chr CHR ''.'',
           Group (digits 2 2), chr CHR ''.'', Group (digits 2 2)],
      cat [chr CHR ''o'', chr CHR ''n'', chr CHR '' '', Group (digits 1 2), chr CHR ''/'',
           Group (digits 1 2), chr CHR ''/'', Group (digits 2 4)],
      Group (cat [digits 4 4, chr CHR ''-'', digits 2 2, chr CHR ''-'', digits 2 2]),
      cat [chr CHR ''o'', chr CHR ''n'', chr CHR '' '', Group (digits 2 2), chr CHR ''-'',
           Group (digits 2 2), chr CHR ''-'', Group (digits 2 2)]]"

definition audit_parse_date_from_title :: "string \<Rightarrow> string option" where
  "audit_parse_date_from_title title = search_loop audit_title_patterns title"



subsection \<open>The suggestion corrector (\<open>fix_date_suggestions.main\<close>)\<close>




subsection \<open>The cross-source auditor (\<open>audit_date_mismatches\<close>)\<close>

record mismatch =
  m_identifier :: string
  m_title :: string
  m_identifier_date :: string
  m_title_date :: string
  m_current_archive_date :: string

text \<open>
  \<open>get_archive_metadata\<close> is the external fetch: the metadata of the item, or \<open>None\<close> when the
  request fails. An empty dictionary is false, as \<open>None\<close> is.
\<close>

definition current_date_of :: "(string \<rightharpoonup> string) option \<Rightarrow> string" where
  "current_date_of metadata =
     (case metadata of
        None \<Rightarrow> ''Error fetching''
      | Some md \<Rightarrow>
          if md = Map.empty then ''Error fetching''
          else (case md ''date'' of None \<Rightarrow> ''Not set'' | Some d \<Rightarrow> d))"

definition audit_item :: "(string \<Rightarrow> (string \<rightharpoonup> string) option) \<Rightarrow> issue_record \<Rightarrow> mismatch option" where
  "audit_item get_archive_metadata issue_item =
     (let identifier = i_identifier issue_item;
          title = i_title issue_item;
          id_date = parse_date_from_identifier identifier;
          title_date = audit_parse_date_from_title title
      in if truthy id_date \<and> truthy title_date \<and> id_date \<noteq> title_date
         then Some \<lparr>m_identifier = identifier, m_title = title,
                    m_identifier_date = get_or_empty id_date,
                    m_title_date = get_or_empty title_date,
                    m_current_archive_date = current_date_of (get_archive_metadata identifier)\<rparr>
         else None)"

definition audit_date_mismatches ::
    "(string \<Rightarrow> (string \<rightharpoonup> string) option) \<Rightarrow> issue_record list \<Rightarrow> mismatch list" where
  "audit_date_mismatches get_archive_metadata issues =
     List.map_filter (audit_item get_archive_metadata) issues"


section \<open>Applying the fixes (\<open>apply_metadata_fixes.py\<close>)\<close>

text \<open>
  The entries read from \<open>metadata_issues.json\<close> are those the analyzer wrote, so each has
  all its keys; a missing key would end the run with a \<open>KeyError\<close> and is left out here.

  What a call of \<open>update_archive_metadata_ia\<close> does to the loop: it returns a truth value or
  raises an exception. The archive is a state \<open>'w\<close> that the call may change.
\<close>

datatype outcome = Returned bool | Raised string

record 'w progress =
  success_count :: nat
  error_count :: nat
  announced :: "string list"
  world :: 'w

text \<open>The dictionary \<open>metadata_updates\<close>, in the order in which the keys are inserted.\<close>

definition metadata_updates_of :: "(string \<rightharpoonup> string) \<Rightarrow> (string \<times> string) list" where
  "metadata_updates_of suggestions =
     (case suggestions ''band'' of Some v \<Rightarrow> [(''band'', v)] | None \<Rightarrow> []) @
     (case suggestions ''venue'' of Some v \<Rightarrow> [(''venue'', v)] | None \<Rightarrow> []) @
     (case suggestions ''date'' of Some v \<Rightarrow> [(''date'', v)] | None \<Rightarrow> [])"

text \<open>
  One round of the loop of \<open>apply_all_fixes\<close>. \<open>announced\<close> is the list of the identifiers
  printed as \<open>[i/n] Updating ...\<close>, one per item the loop reaches.
\<close>

definition apply_step ::
    "('w \<Rightarrow> string \<Rightarrow> (string \<times> string) list \<Rightarrow> outcome \<times> 'w) \<Rightarrow> 'w progress \<Rightarrow> issue_record \<Rightarrow> 'w progress" where
  "apply_step update st issue_item =
     (let identifier = i_identifier issue_item;
          suggestions = i_suggestions issue_item;
          st = st\<lparr>announced := announced st @ [identifier]\<rparr>;
          metadata_updates = metadata_updates_of suggestions
      in if metadata_updates \<noteq> [] then
           (case update (world st) identifier metadata_updates of
              (Returned success, w) \<Rightarrow>
                 if success then st\<lparr>success_count := success_count st + 1, world := w\<rparr>
                 else st\<lparr>error_count := error_count st + 1, world := w\<rparr>
            | (Raised e, w) \<Rightarrow> st\<lparr>error_count := error_count st + 1, world := w\<rparr>)
         else st)"

definition apply_all_fixes ::
    "('w \<Rightarrow> string \<Rightarrow> (string \<times> string) list \<Rightarrow> outcome \<times> 'w) \<Rightarrow> 'w \<Rightarrow> issue_record list \<Rightarrow> 'w progress" where
  "apply_all_fixes update w issues =
     foldl (apply_step update)
       \<lparr>success_count = 0, error_count = 0, announced = [], world = w\<rparr> issues"


section \<open>Notions used to state the properties\<close>

text \<open>A string of between \<open>lo\<close> and \<open>hi\<close> decimal digits.\<close>

definition digit_str :: "nat \<Rightarrow> nat \<Rightarrow> string \<Rightarrow> bool" where
  "digit_str lo hi s = (lo \<le> length s \<and> length s \<le> hi \<and> list_all is_digit s)"

text \<open>The textual shape \<open>YYYY-MM-DD\<close>, and the three numbers it holds.\<close>

definition canonical_shape :: "string \<Rightarrow> bool" where
  "canonical_shape r =
     (length r = 10 \<and> digit_str 4 4 (take 4 r) \<and> r ! 4 = CHR ''-'' \<and>
      digit_str 2 2 (take 2 (drop 5 r)) \<and> r ! 7 = CHR ''-'' \<and> digit_str 2 2 (drop 8 r))"

definition year_of :: "string \<Rightarrow> nat" where
  "year_of r = int_of_digits (take 4 r)"

definition month_of :: "string \<Rightarrow> nat" where
  "month_of r = int_of_digits (take 2 (drop 5 r))"

definition day_of :: "string \<Rightarrow> nat" where
  "day_of r = int_of_digits (take 2 (drop 8 r))"

text \<open>The year that \<open>standardize_date\<close> writes for a year of two or of four digits.\<close>

definition full_year :: "string \<Rightarrow> string" where
  "full_year y = (if length y = 2 then ''20'' @ y else y)"

text \<open>One of the seven patterns of \<open>standardize_date\<close> matches.\<close>

definition recognized :: "string \<Rightarrow> bool" where
  "recognized s =
     (re_match False mmddyy_re s \<noteq> None \<or> re_match False mmddyyyy_re s \<noteq> None \<or>
      re_match False ddmmyy_re s \<noteq> None \<or> re_match False ddmmyyyy_re s \<noteq> None \<or>
      re_match False iso_date_re s \<noteq> None \<or> re_match False yyyymmdd_re s \<noteq> None \<or>
      re_match False yyyy_re s \<noteq> None)"

text \<open>
  The date rule of the issue detector as the specification words it, for a stored date
  \<open>effective\<close> and the date found in the title: the suggested date when \<open>bad_date_format\<close> is
  flagged, \<open>None\<close> when there is no date issue.
\<close>

definition spec_date_rule :: "string \<Rightarrow> string option \<Rightarrow> string option" where
  "spec_date_rule effective title_date =
     (let canonical = standardize_date effective in
      if \<exists>t. title_date = Some t \<and> endswith canonical ''-01-01'' \<and> \<not> endswith t ''-01-01'' \<and> canonical \<noteq> t
      then title_date
      else if canonical \<noteq> effective then Some canonical
      else None)"




section \<open>Digits and numbers\<close>

lemma not_digit [simp]:
  "\<not> is_digit CHR ''/''" "\<not> is_digit CHR ''.''" "\<not> is_digit CHR ''-''" "\<not> is_digit CHR ''T''"
  "\<not> is_digit CHR 0x0A" "\<not> is_digit CHR ''_''" "\<not> is_digit CHR '' ''" "\<not> is_digit CHR ''o''"
  "\<not> is_digit CHR ''n''" "\<not> is_digit CHR ''+''"
  by (simp_all add: is_digit_def)

lemma digit_neq [simp]:
  assumes "is_digit x"
  shows "x \<noteq> CHR ''/''" "x \<noteq> CHR ''.''" "x \<noteq> CHR ''-''" "x \<noteq> CHR ''T''" "x \<noteq> CHR 0x0A"
    "x \<noteq> CHR ''_''" "x \<noteq> CHR '' ''" "x \<noteq> CHR ''o''" "x \<noteq> CHR ''n''" "x \<noteq> CHR ''+''"
    "CHR ''/'' \<noteq> x" "CHR ''.'' \<noteq> x" "CHR ''-'' \<noteq> x" "CHR ''T'' \<noteq> x" "CHR 0x0A \<noteq> x"
    "CHR ''_'' \<noteq> x" "CHR '' '' \<noteq> x" "CHR ''o'' \<noteq> x" "CHR ''n'' \<noteq> x" "CHR ''+'' \<noteq> x"
  using assms by (auto simp: is_digit_def)

lemma digit_str_1_2D:
  "digit_str 1 2 s \<Longrightarrow> (\<exists>x. s = [x] \<and> is_digit x) \<or> (\<exists>x y. s = [x, y] \<and> is_digit x \<and> is_digit y)"
  unfolding digit_str_def
  by (cases s; simp) (rename_tac x xs, case_tac xs; simp)

lemma digit_str_2_2D:
  "digit_str 2 2 s \<Longrightarrow> \<exists>x y. s = [x, y] \<and> is_digit x \<and> is_digit y"
  unfolding digit_str_def
  by (cases s; simp) (rename_tac x xs, case_tac xs; simp)

lemma digit_str_4_4D:
  assumes "digit_str 4 4 s"
  shows "\<exists>w x y z. s = [w, x, y, z] \<and> is_digit w \<and> is_digit x \<and> is_digit y \<and> is_digit z"
proof -
  from assms have "length s = Suc (Suc (Suc (Suc 0)))" by (simp add: digit_str_def)
  then obtain w x y z where "s = [w, x, y, z]" by (auto simp: length_Suc_conv)
  with assms show ?thesis by (auto simp: digit_str_def)
qed


lemma digit_str_length: "digit_str n n s \<Longrightarrow> length s = n"
  by (simp add: digit_str_def)

lemma digit_val_0 [simp]: "digit_val CHR ''0'' = 0"
  by (simp add: digit_val_def)

lemma int_of_digits_snoc: "int_of_digits (s @ [c]) = 10 * int_of_digits s + digit_val c"
  by (simp add: int_of_digits_def)

lemma int_of_digits_zeros: "int_of_digits (replicate k CHR ''0'' @ s) = int_of_digits s"
proof -
  have "foldl (\<lambda>n c. 10 * n + digit_val c) 0 (replicate k CHR ''0'') = 0"
    by (induction k) simp_all
  then show ?thesis by (simp add: int_of_digits_def)
qed

lemma zfill_digits:
  assumes "digit_str 1 2 a"
  shows "length (zfill 2 a) = 2" and "int_of_digits (zfill 2 a) = int_of_digits a"
    and "digit_str 2 2 (zfill 2 a)"
  using digit_str_1_2D[OF assms]
  by (auto simp: zfill_def int_of_digits_def digit_str_def is_digit_def)

lemma full_year_length: "digit_str 2 2 y \<or> digit_str 4 4 y \<Longrightarrow> length (full_year y) = 4"
  by (auto simp: full_year_def digit_str_def)

section \<open>Canonicalisation of the recognised shapes\<close>

lemmas pat_defs = re_match_def cat_def digits_def chr_def chr_eq_def

lemma std_slash2:
  assumes "digit_str 1 2 a" "digit_str 1 2 b" "digit_str 2 2 y"
  shows "standardize_date (a @ ''/'' @ b @ ''/'' @ y) = ''20'' @ y @ ''-'' @ zfill 2 a @ ''-'' @ zfill 2 b"
  using digit_str_1_2D[OF assms(1)] digit_str_1_2D[OF assms(2)] digit_str_2_2D[OF assms(3)]
  by (auto simp: standardize_date_def mmddyy_re_def pat_defs zfill_def)

lemma std_slash4:
  assumes "digit_str 1 2 a" "digit_str 1 2 b" "digit_str 4 4 y"
  shows "standardize_date (a @ ''/'' @ b @ ''/'' @ y) = y @ ''-'' @ zfill 2 a @ ''-'' @ zfill 2 b"
  using digit_str_1_2D[OF assms(1)] digit_str_1_2D[OF assms(2)] digit_str_4_4D[OF assms(3)]
  by (auto simp: standardize_date_def mmddyy_re_def mmddyyyy_re_def pat_defs zfill_def)

lemma std_dot2:
  assumes "digit_str 1 2 a" "digit_str 1 2 b" "digit_str 2 2 y"
  shows "standardize_date (a @ ''.'' @ b @ ''.'' @ y) = ''20'' @ y @ ''-'' @ zfill 2 b @ ''-'' @ zfill 2 a"
  using digit_str_1_2D[OF assms(1)] digit_str_1_2D[OF assms(2)] digit_str_2_2D[OF assms(3)]
  by (auto simp: standardize_date_def mmddyy_re_def mmddyyyy_re_def ddmmyy_re_def pat_defs zfill_def)

lemma std_dot4:
  assumes "digit_str 1 2 a" "digit_str 1 2 b" "digit_str 4 4 y"
  shows "standardize_date (a @ ''.'' @ b @ ''.'' @ y) = y @ ''-'' @ zfill 2 b @ ''-'' @ zfill 2 a"
  using digit_str_1_2D[OF assms(1)] digit_str_1_2D[OF assms(2)] digit_str_4_4D[OF assms(3)]
  by (auto simp: standardize_date_def mmddyy_re_def mmddyyyy_re_def ddmmyy_re_def ddmmyyyy_re_def pat_defs zfill_def)

lemma std_slash:
  assumes "digit_str 1 2 a" "digit_str 1 2 b" "digit_str 2 2 y \<or> digit_str 4 4 y"
  shows "standardize_date (a @ ''/'' @ b @ ''/'' @ y) = full_year y @ ''-'' @ zfill 2 a @ ''-'' @ zfill 2 b"
  using assms std_slash2[of a b y] std_slash4[of a b y]
  by (auto simp: full_year_def digit_str_def)

lemma std_dot:
  assumes "digit_str 1 2 a" "digit_str 1 2 b" "digit_str 2 2 y \<or> digit_str 4 4 y"
  shows "standardize_date (a @ ''.'' @ b @ ''.'' @ y) = full_year y @ ''-'' @ zfill 2 b @ ''-'' @ zfill 2 a"
  using assms std_dot2[of a b y] std_dot4[of a b y]
  by (auto simp: full_year_def digit_str_def)

text \<open>The fields of a date assembled from a year of four characters and two fields of two.\<close>

lemma fields_of_assembled:
  assumes "length y = 4" "length m = 2" "length d = 2"
  shows "year_of (y @ ''-'' @ m @ ''-'' @ d) = int_of_digits y"
    and "month_of (y @ ''-'' @ m @ ''-'' @ d) = int_of_digits m"
    and "day_of (y @ ''-'' @ m @ ''-'' @ d) = int_of_digits d"
  using assms by (simp_all add: year_of_def month_of_def day_of_def)

lemma assembled_differ:
  assumes "length m = 2" "length d = 2" "int_of_digits m \<noteq> int_of_digits d"
  shows "y @ ''-'' @ m @ ''-'' @ d \<noteq> y @ ''-'' @ d @ ''-'' @ m"
  using assms by auto

text \<open>
  C4. The canonicalizer reads a slashed date as month/day/year and a dotted date as
  day.month.year: for the same digits \<open>a\<close>, \<open>b\<close> and year \<open>y\<close>, the month and the day of the
  dotted form are those of the slashed form exchanged, and the two canonical dates differ
  whenever one of \<open>a\<close>, \<open>b\<close> exceeds 12 and the other is at most 12.
\<close>

theorem C4_dot_is_day_first:
  assumes "digit_str 1 2 a" "digit_str 1 2 b" "digit_str 2 2 y \<or> digit_str 4 4 y"
  shows "standardize_date (a @ ''/'' @ b @ ''/'' @ y) = full_year y @ ''-'' @ zfill 2 a @ ''-'' @ zfill 2 b
       \<and> standardize_date (a @ ''.'' @ b @ ''.'' @ y) = full_year y @ ''-'' @ zfill 2 b @ ''-'' @ zfill 2 a
       \<and> month_of (standardize_date (a @ ''/'' @ b @ ''/'' @ y)) = int_of_digits a
       \<and> day_of (standardize_date (a @ ''/'' @ b @ ''/'' @ y)) = int_of_digits b
       \<and> month_of (standardize_date (a @ ''.'' @ b @ ''.'' @ y)) = int_of_digits b
       \<and> day_of (standardize_date (a @ ''.'' @ b @ ''.'' @ y)) = int_of_digits a
       \<and> ((12 < int_of_digits b \<and> int_of_digits a \<le> 12) \<or> (12 < int_of_digits a \<and> int_of_digits b \<le> 12)
            \<longrightarrow> standardize_date (a @ ''/'' @ b @ ''/'' @ y) \<noteq> standardize_date (a @ ''.'' @ b @ ''.'' @ y))"
proof -
  note s = std_slash[OF assms] and d = std_dot[OF assms]
  note ly = full_year_length[OF assms(3)]
  note za = zfill_digits[OF assms(1)] and zb = zfill_digits[OF assms(2)]
  have m1: "month_of (standardize_date (a @ ''/'' @ b @ ''/'' @ y)) = int_of_digits a"
    and d1: "day_of (standardize_date (a @ ''/'' @ b @ ''/'' @ y)) = int_of_digits b"
    unfolding s using fields_of_assembled[OF ly za(1) zb(1)] za(2) zb(2) by simp_all
  have m2: "month_of (standardize_date (a @ ''.'' @ b @ ''.'' @ y)) = int_of_digits b"
    and d2: "day_of (standardize_date (a @ ''.'' @ b @ ''.'' @ y)) = int_of_digits a"
    unfolding d using fields_of_assembled[OF ly zb(1) za(1)] za(2) zb(2) by simp_all
  have ne: "standardize_date (a @ ''/'' @ b @ ''/'' @ y) \<noteq> standardize_date (a @ ''.'' @ b @ ''.'' @ y)"
    if "int_of_digits a \<noteq> int_of_digits b"
    unfolding s d using assembled_differ[OF za(1) zb(1)] that za(2) zb(2) by simp
  from s d m1 d1 m2 d2 ne show ?thesis by auto
qed

theorem C4_dot_is_day_first_witness:
  "standardize_date ''3/14/2014'' = ''2014-03-14'' \<and> standardize_date ''3.14.2014'' = ''2014-14-03''
   \<and> standardize_date ''3/14/2014'' \<noteq> standardize_date ''3.14.2014''"
proof -
  have 1: "digit_str 1 2 ''3''" and 2: "digit_str 1 2 ''14''" and 3: "digit_str 2 2 ''2014'' \<or> digit_str 4 4 ''2014''"
    by (simp_all add: digit_str_def is_digit_def)
  have 4: "int_of_digits ''3'' = 3" "int_of_digits ''14'' = 14"
    by (simp_all add: int_of_digits_def digit_val_def)
  from C4_dot_is_day_first[OF 1 2 3] 4 show ?thesis
    by (simp add: full_year_def zfill_def)
qed

section \<open>What a match tells about the text\<close>

lemma rep_sound:
  "(p', r') \<in> set (rep ic c lo hi g pre rest) \<Longrightarrow>
     \<exists>u. rest = u @ r' \<and> p' = rev u @ pre \<and> list_all (cc_ok ic c) u \<and> lo \<le> length u \<and>
         (\<forall>h. hi = Some h \<longrightarrow> length u \<le> h)"
proof (induction rest arbitrary: lo hi pre)
  case Nil
  then show ?case by (auto split: if_splits)
next
  case (Cons x xs)
  from Cons.prems consider
    (stop) "lo = 0" "(p', r') = (pre, x # xs)"
    | (more) "hi \<noteq> Some 0" "cc_ok ic c x"
        "(p', r') \<in> set (rep ic c (lo - 1) (map_option (\<lambda>h. h - 1) hi) g (x # pre) xs)"
    by (auto simp: Let_def split: if_splits)
  then show ?case
  proof cases
    case stop
    then show ?thesis by auto
  next
    case more
    from Cons.IH[OF more(3)] obtain u where u: "xs = u @ r'" "p' = rev u @ x # pre"
      "list_all (cc_ok ic c) u" "lo - 1 \<le> length u"
      "\<forall>h. map_option (\<lambda>h. h - 1) hi = Some h \<longrightarrow> length u \<le> h" by blast
    have "\<forall>h. hi = Some h \<longrightarrow> length (x # u) \<le> h"
      using u(5) more(1) by (cases hi) auto
    with u more(2) show ?thesis
      by (intro exI[of _ "x # u"]) auto
  qed
qed

text \<open>A match consumes a prefix of the remaining text.\<close>

lemma mt_consumes:
  "(p', r', g') \<in> set (mt ic rx (p, r, g)) \<Longrightarrow> \<exists>u. r = u @ r' \<and> p' = rev u @ p"
proof (induction rx arbitrary: p r g p' r' g')
  case (Cls c)
  then show ?case by (auto split: list.splits if_splits)
next
  case (Rep c lo hi gr)
  then show ?case by (auto dest!: rep_sound)
next
  case (Seq a b)
  from Seq.prems obtain p1 r1 g1 where 1: "(p1, r1, g1) \<in> set (mt ic a (p, r, g))"
    and 2: "(p', r', g') \<in> set (mt ic b (p1, r1, g1))" by auto
  from Seq.IH(1)[OF 1] Seq.IH(2)[OF 2] show ?case by auto
next
  case (Alt a b)
  then show ?case by auto
next
  case (Group a)
  then show ?case by auto
qed (auto split: if_splits)

lemma mt_Group_iff:
  "(p', r', g') \<in> set (mt ic (Group a) (p, r, g)) \<longleftrightarrow>
     (\<exists>u g1. (p', r', g1) \<in> set (mt ic a (p, r, g)) \<and> r = u @ r' \<and> p' = rev u @ p \<and> g' = g1 @ [u])"
proof
  assume "(p', r', g') \<in> set (mt ic (Group a) (p, r, g))"
  then obtain g1 where 1: "(p', r', g1) \<in> set (mt ic a (p, r, g))"
    and 2: "g' = g1 @ [rev (take (length p' - length p) p')]" by auto
  from mt_consumes[OF 1] obtain u where u: "r = u @ r'" "p' = rev u @ p" by blast
  with 1 2 show "\<exists>u g1. (p', r', g1) \<in> set (mt ic a (p, r, g)) \<and> r = u @ r' \<and> p' = rev u @ p \<and> g' = g1 @ [u]"
    by auto
next
  assume "\<exists>u g1. (p', r', g1) \<in> set (mt ic a (p, r, g)) \<and> r = u @ r' \<and> p' = rev u @ p \<and> g' = g1 @ [u]"
  then obtain u g1 where 1: "(p', r', g1) \<in> set (mt ic a (p, r, g))" and u: "r = u @ r'" "p' = rev u @ p"
    "g' = g1 @ [u]" by blast
  have "(\<lambda>(pa, ra, gs'). (pa, ra, gs' @ [rev (take (length pa - length p) pa)])) (p', r', g1) = (p', r', g')"
    using u by simp
  with 1 show "(p', r', g') \<in> set (mt ic (Group a) (p, r, g))"
    by (simp only: mt.simps set_map) (rule image_eqI[where x = "(p', r', g1)"], simp_all)
qed

lemma mt_Seq_iff:
  "(p', r', g') \<in> set (mt ic (Seq a b) (p, r, g)) \<longleftrightarrow>
     (\<exists>p1 r1 g1. (p1, r1, g1) \<in> set (mt ic a (p, r, g)) \<and> (p', r', g') \<in> set (mt ic b (p1, r1, g1)))"
  by auto

lemma mt_Alt_iff:
  "st' \<in> set (mt ic (Alt a b) st) \<longleftrightarrow> st' \<in> set (mt ic a st) \<or> st' \<in> set (mt ic b st)"
  by auto

lemma mt_Cls_iff:
  "(p', r', g') \<in> set (mt ic (Cls c) (p, r, g)) \<longleftrightarrow> (\<exists>x. r = x # r' \<and> cc_ok ic c x \<and> p' = x # p \<and> g' = g)"
  by (auto split: list.splits)

lemma mt_chr_iff:
  "(p', r', g') \<in> set (mt False (chr c) (p, r, g)) \<longleftrightarrow> (r = c # r' \<and> p' = c # p \<and> g' = g)"
  by (auto simp: chr_def chr_eq_def split: list.splits)

lemma mt_Bol_iff:
  "(p', r', g') \<in> set (mt ic Bol (p, r, g)) \<longleftrightarrow> (p = [] \<and> p' = p \<and> r' = r \<and> g' = g)"
  by auto

lemma mt_Eol_iff:
  "(p', r', g') \<in> set (mt ic Eol (p, r, g)) \<longleftrightarrow> ((r = [] \<or> r = [CHR 0x0A]) \<and> p' = p \<and> r' = r \<and> g' = g)"
  by auto

lemma mt_Eps_iff:
  "(p', r', g') \<in> set (mt ic Eps (p, r, g)) \<longleftrightarrow> (p' = p \<and> r' = r \<and> g' = g)"
  by auto

lemma mt_digitsD:
  "(p', r', g') \<in> set (mt ic (digits lo hi) (p, r, g)) \<Longrightarrow>
     \<exists>u. r = u @ r' \<and> p' = rev u @ p \<and> g' = g \<and> digit_str lo hi u"
  unfolding digits_def digit_str_def
  by (auto dest!: rep_sound simp: list_all_iff)

lemmas mt_iffs = mt_Seq_iff mt_chr_iff mt_Bol_iff mt_Eol_iff mt_Eps_iff mt_Group_iff

lemma re_match_SomeD:
  "re_match ic rx s = Some gs \<Longrightarrow> \<exists>p' r'. (p', r', gs) \<in> set (mt ic rx ([], s, []))"
  by (auto simp: re_match_def split: list.splits)

lemma search_from_SomeD:
  "search_from ic rx pre s = Some gs \<Longrightarrow> \<exists>p r p' r'. (p', r', gs) \<in> set (mt ic rx (p, r, []))"
proof (induction s arbitrary: pre)
  case Nil
  then obtain st sts where 1: "mt ic rx (pre, [], []) = st # sts" and 2: "snd (snd st) = gs"
    by (auto split: list.splits)
  from 1 have "st \<in> set (mt ic rx (pre, [], []))" by simp
  moreover obtain p' r' where "st = (p', r', gs)" using 2 by (cases st) auto
  ultimately have "(p', r', gs) \<in> set (mt ic rx (pre, [], []))" by simp
  then show ?case by blast
next
  case (Cons x xs)
  show ?case
  proof (cases "mt ic rx (pre, x # xs, [])")
    case Nil
    with Cons.prems have "search_from ic rx (x # pre) xs = Some gs" by simp
    from Cons.IH[OF this] show ?thesis .
  next
    case hit: (Cons st sts)
    from hit have 1: "st \<in> set (mt ic rx (pre, x # xs, []))" by simp
    from hit Cons.prems have 2: "snd (snd st) = gs" by (auto split: prod.splits)
    obtain p' r' where "st = (p', r', gs)" using 2 by (cases st) auto
    with 1 have "(p', r', gs) \<in> set (mt ic rx (pre, x # xs, []))" by simp
    then show ?thesis by blast
  qed
qed

lemma re_search_SomeD:
  "re_search ic rx s = Some gs \<Longrightarrow> \<exists>p r p' r'. (p', r', gs) \<in> set (mt ic rx (p, r, []))"
  unfolding re_search_def by (rule search_from_SomeD)

subsection \<open>The patterns of \<open>standardize_date\<close>\<close>

lemma three_fields_inv:
  assumes "re_match False (cat [Bol, Group (digits 1 2), chr c, Group (digits 1 2), chr c,
                                Group (digits k k), Eol]) s = Some g"
  shows "\<exists>a b y. g = [a, b, y] \<and> digit_str 1 2 a \<and> digit_str 1 2 b \<and> digit_str k k y"
proof -
  from re_match_SomeD[OF assms] obtain p' r' where
    "(p', r', g) \<in> set (mt False (cat [Bol, Group (digits 1 2), chr c, Group (digits 1 2), chr c,
                                Group (digits k k), Eol]) ([], s, []))"
    by blast
  then show ?thesis
    unfolding cat_def foldr.simps o_apply
    apply (simp only: mt_iffs)
    apply (auto dest!: mt_digitsD)
    done
qed

lemma iso_inv:
  assumes "re_match False iso_date_re s = Some g"
  shows "\<exists>y m d. g = [y @ ''-'' @ m @ ''-'' @ d] \<and> digit_str 4 4 y \<and> digit_str 2 2 m \<and> digit_str 2 2 d"
proof -
  from re_match_SomeD[OF assms] obtain p' r' where
    "(p', r', g) \<in> set (mt False iso_date_re ([], s, []))"
    by blast
  then show ?thesis
    unfolding iso_date_re_def cat_def foldr.simps o_apply
    apply (simp only: mt_iffs)
    apply (auto dest!: mt_digitsD)
    apply blast
    done
qed

lemma yyyymmdd_inv:
  assumes "re_match False yyyymmdd_re s = Some g"
  shows "\<exists>y m d e. s = y @ ''-'' @ m @ ''-'' @ d @ e \<and> digit_str 4 4 y \<and> digit_str 2 2 m \<and> digit_str 2 2 d
           \<and> (e = [] \<or> e = [CHR 0x0A])"
proof -
  from re_match_SomeD[OF assms] obtain p' r' where
    "(p', r', g) \<in> set (mt False yyyymmdd_re ([], s, []))"
    by blast
  then show ?thesis
    unfolding yyyymmdd_re_def cat_def foldr.simps o_apply
    apply (simp only: mt_iffs)
    apply (auto dest!: mt_digitsD)
    done
qed

lemma yyyy_inv:
  assumes "re_match False yyyy_re s = Some g"
  shows "\<exists>y e. s = y @ e \<and> digit_str 4 4 y \<and> (e = [] \<or> e = [CHR 0x0A])"
proof -
  from re_match_SomeD[OF assms] obtain p' r' where
    "(p', r', g) \<in> set (mt False yyyy_re ([], s, []))"
    by blast
  then show ?thesis
    unfolding yyyy_re_def cat_def foldr.simps o_apply
    apply (simp only: mt_iffs)
    apply (auto dest!: mt_digitsD)
    done
qed


lemma shape_assembled:
  assumes "digit_str 4 4 y" "digit_str 2 2 m" "digit_str 2 2 d"
  shows "canonical_shape (y @ ''-'' @ m @ ''-'' @ d)"
  using digit_str_4_4D[OF assms(1)] digit_str_2_2D[OF assms(2)] digit_str_2_2D[OF assms(3)]
  by (auto simp: canonical_shape_def digit_str_def)

lemma century_20: "digit_str 2 2 y \<Longrightarrow> digit_str 4 4 (''20'' @ y)"
  by (simp add: digit_str_def is_digit_def)

lemma std_shape:
  assumes "recognized s"
    "re_match False yyyymmdd_re s \<noteq> None \<or> re_match False yyyy_re s \<noteq> None \<longrightarrow> last s \<noteq> CHR 0x0A"
  shows "canonical_shape (standardize_date s)"
proof -
  from assms(1) have ne: "s \<noteq> []"
    by (auto simp: recognized_def mmddyy_re_def mmddyyyy_re_def ddmmyy_re_def ddmmyyyy_re_def
        iso_date_re_def yyyymmdd_re_def yyyy_re_def pat_defs)
  consider (a) g where "re_match False mmddyy_re s = Some g"
    | (b) g where "re_match False mmddyy_re s = None" "re_match False mmddyyyy_re s = Some g"
    | (c) g where "re_match False mmddyy_re s = None" "re_match False mmddyyyy_re s = None"
        "re_match False ddmmyy_re s = Some g"
    | (d) g where "re_match False mmddyy_re s = None" "re_match False mmddyyyy_re s = None"
        "re_match False ddmmyy_re s = None" "re_match False ddmmyyyy_re s = Some g"
    | (e) g where "re_match False mmddyy_re s = None" "re_match False mmddyyyy_re s = None"
        "re_match False ddmmyy_re s = None" "re_match False ddmmyyyy_re s = None"
        "re_match False iso_date_re s = Some g"
    | (f) g where "re_match False mmddyy_re s = None" "re_match False mmddyyyy_re s = None"
        "re_match False ddmmyy_re s = None" "re_match False ddmmyyyy_re s = None"
        "re_match False iso_date_re s = None" "re_match False yyyymmdd_re s = Some g"
    | (g) g where "re_match False mmddyy_re s = None" "re_match False mmddyyyy_re s = None"
        "re_match False ddmmyy_re s = None" "re_match False ddmmyyyy_re s = None"
        "re_match False iso_date_re s = None" "re_match False yyyymmdd_re s = None"
        "re_match False yyyy_re s = Some g"
    using assms(1) unfolding recognized_def by fastforce
  then show ?thesis
  proof cases
    case a
    from three_fields_inv[OF a[unfolded mmddyy_re_def]] obtain x b y where
      g: "g = [x, b, y]" and x: "digit_str 1 2 x" and b: "digit_str 1 2 b" and y: "digit_str 2 2 y" by blast
    have "standardize_date s = (''20'' @ y) @ ''-'' @ zfill 2 x @ ''-'' @ zfill 2 b"
      using a ne g by (simp add: standardize_date_def)
    with shape_assembled[OF century_20[OF y] zfill_digits(3)[OF x] zfill_digits(3)[OF b]]
    show ?thesis by (simp only:)
  next
    case b
    from three_fields_inv[OF b(2)[unfolded mmddyyyy_re_def]] obtain x c y where
      g: "g = [x, c, y]" and x: "digit_str 1 2 x" and c: "digit_str 1 2 c" and y: "digit_str 4 4 y" by blast
    have "standardize_date s = y @ ''-'' @ zfill 2 x @ ''-'' @ zfill 2 c"
      using b ne g by (simp add: standardize_date_def)
    with shape_assembled[OF y zfill_digits(3)[OF x] zfill_digits(3)[OF c]]
    show ?thesis by (simp only:)
  next
    case c
    from three_fields_inv[OF c(3)[unfolded ddmmyy_re_def]] obtain x b y where
      g: "g = [x, b, y]" and x: "digit_str 1 2 x" and b: "digit_str 1 2 b" and y: "digit_str 2 2 y" by blast
    have "standardize_date s = (''20'' @ y) @ ''-'' @ zfill 2 b @ ''-'' @ zfill 2 x"
      using c ne g by (simp add: standardize_date_def)
    with shape_assembled[OF century_20[OF y] zfill_digits(3)[OF b] zfill_digits(3)[OF x]]
    show ?thesis by (simp only:)
  next
    case d
    from three_fields_inv[OF d(4)[unfolded ddmmyyyy_re_def]] obtain x b y where
      g: "g = [x, b, y]" and x: "digit_str 1 2 x" and b: "digit_str 1 2 b" and y: "digit_str 4 4 y" by blast
    have "standardize_date s = y @ ''-'' @ zfill 2 b @ ''-'' @ zfill 2 x"
      using d ne g by (simp add: standardize_date_def)
    with shape_assembled[OF y zfill_digits(3)[OF b] zfill_digits(3)[OF x]]
    show ?thesis by (simp only:)
  next
    case e
    from iso_inv[OF e(5)] obtain y m d where
      "g = [y @ ''-'' @ m @ ''-'' @ d]" "digit_str 4 4 y" "digit_str 2 2 m" "digit_str 2 2 d" by blast
    with e ne shape_assembled[of y m d] show ?thesis
      by (simp add: standardize_date_def)
  next
    case f
    from yyyymmdd_inv[OF f(6)] obtain y m d e where
      s: "s = y @ ''-'' @ m @ ''-'' @ d @ e" and "digit_str 4 4 y" "digit_str 2 2 m" "digit_str 2 2 d"
      and e: "e = [] \<or> e = [CHR 0x0A]" by blast
    from assms(2) f(6) have nl: "last s \<noteq> CHR 0x0A" by simp
    from e nl s have "e = []" by auto
    with f ne s shape_assembled[of y m d] \<open>digit_str 4 4 y\<close> \<open>digit_str 2 2 m\<close> \<open>digit_str 2 2 d\<close>
    show ?thesis
      by (simp add: standardize_date_def)
  next
    case g
    from yyyy_inv[OF g(7)] obtain y e where
      s: "s = y @ e" and y: "digit_str 4 4 y" and e: "e = [] \<or> e = [CHR 0x0A]" by blast
    from assms(2) g(7) have nl: "last s \<noteq> CHR 0x0A" by simp
    from e nl s have "e = []" by auto
    have "digit_str 2 2 ''01''" by (simp add: digit_str_def is_digit_def)
    from shape_assembled[OF y this this] g ne s \<open>e = []\<close> show ?thesis
      by (simp add: standardize_date_def)
  qed
qed

section \<open>Decimal output\<close>

lemma digit_chr_digit: "k < 10 \<Longrightarrow> is_digit (digit_chr k) \<and> digit_val (digit_chr k) = k"
proof -
  have "list_all (\<lambda>k. is_digit (digit_chr k) \<and> digit_val (digit_chr k) = k) [0..<10]"
    by code_simp
  then show "k < 10 \<Longrightarrow> is_digit (digit_chr k) \<and> digit_val (digit_chr k) = k"
    unfolding list_all_iff by (metis atLeastLessThan_iff set_upt zero_le)
qed

lemma dec_digits: "list_all is_digit (dec n)"
proof (induction n rule: dec.induct)
  case (1 n)
  show ?case
  proof (cases "n < 10")
    case True
    then show ?thesis by (subst dec.simps) (simp add: digit_chr_digit)
  next
    case False
    with 1 have "list_all is_digit (dec (n div 10))" by simp
    moreover have "is_digit (digit_chr (n mod 10))" by (simp add: digit_chr_digit)
    ultimately show ?thesis using False by (subst dec.simps) simp
  qed
qed

lemma int_of_digits_dec: "int_of_digits (dec n) = n"
proof (induction n rule: dec.induct)
  case (1 n)
  show ?case
  proof (cases "n < 10")
    case True
    then show ?thesis
      by (subst dec.simps) (simp add: int_of_digits_def digit_chr_digit)
  next
    case False
    with 1 have "int_of_digits (dec (n div 10)) = n div 10" by simp
    then show ?thesis using False
      by (subst dec.simps) (simp add: int_of_digits_snoc digit_chr_digit)
  qed
qed

lemma dec_length_1: "n < 10 \<Longrightarrow> length (dec n) = 1"
  by (subst dec.simps) simp

lemma dec_length_2: "n < 100 \<Longrightarrow> length (dec n) \<le> 2"
  by (subst dec.simps) (simp add: dec_length_1)

lemma dec_length_3: "n < 1000 \<Longrightarrow> length (dec n) \<le> 3"
  using dec_length_2[of "n div 10"] by (subst dec.simps) simp

lemma dec_length_4: "n < 10000 \<Longrightarrow> length (dec n) \<le> 4"
  using dec_length_3[of "n div 10"] by (subst dec.simps) simp

lemma fmt_d_props:
  assumes "length (dec n) \<le> w"
  shows "length (fmt_d w n) = w" and "list_all is_digit (fmt_d w n)" and "int_of_digits (fmt_d w n) = n"
proof -
  have z: "is_digit CHR ''0''" by (simp add: is_digit_def)
  show "length (fmt_d w n) = w" using assms by (simp add: fmt_d_def)
  show "list_all is_digit (fmt_d w n)" using z dec_digits[of n] by (auto simp: fmt_d_def list_all_iff)
  show "int_of_digits (fmt_d w n) = n" by (simp add: fmt_d_def int_of_digits_zeros int_of_digits_dec)
qed

lemma fmt_d_digit_str:
  assumes "length (dec n) \<le> w"
  shows "digit_str w w (fmt_d w n)"
  using fmt_d_props[OF assms] by (simp add: digit_str_def)

text \<open>The string that \<open>extract_date_from_title\<close> assembles from a date that exists.\<close>

lemma formatted_date:
  assumes "valid_date y m d"
  shows "canonical_shape (fmt_d 4 y @ ''-'' @ fmt_d 2 m @ ''-'' @ fmt_d 2 d)"
    and "year_of (fmt_d 4 y @ ''-'' @ fmt_d 2 m @ ''-'' @ fmt_d 2 d) = y"
    and "month_of (fmt_d 4 y @ ''-'' @ fmt_d 2 m @ ''-'' @ fmt_d 2 d) = m"
    and "day_of (fmt_d 4 y @ ''-'' @ fmt_d 2 m @ ''-'' @ fmt_d 2 d) = d"
proof -
  from assms have "d \<le> 31" by (auto simp: valid_date_def days_in_month_def split: if_splits)
  with assms have ly: "length (dec y) \<le> 4" and lm: "length (dec m) \<le> 2" and ld: "length (dec d) \<le> 2"
    by (auto simp: valid_date_def intro!: dec_length_4 dec_length_2)
  note py = fmt_d_props[OF ly] and pm = fmt_d_props[OF lm] and pd = fmt_d_props[OF ld]
  show "canonical_shape (fmt_d 4 y @ ''-'' @ fmt_d 2 m @ ''-'' @ fmt_d 2 d)"
    by (rule shape_assembled) (rule fmt_d_digit_str, fact)+
  show "year_of (fmt_d 4 y @ ''-'' @ fmt_d 2 m @ ''-'' @ fmt_d 2 d) = y"
    "month_of (fmt_d 4 y @ ''-'' @ fmt_d 2 m @ ''-'' @ fmt_d 2 d) = m"
    "day_of (fmt_d 4 y @ ''-'' @ fmt_d 2 m @ ''-'' @ fmt_d 2 d) = d"
    using fields_of_assembled[OF py(1) pm(1) pd(1)] py(3) pm(3) pd(3) by simp_all
qed

section \<open>\<open>strptime\<close>\<close>

lemma chr_eq_nonletter:
  assumes "of_char c < (65::nat)"
  shows "chr_eq ic c x = (c = x)"
proof (cases ic)
  case False
  then show ?thesis by (simp add: chr_eq_def)
next
  case True
  have lc: "lower_chr c = c" using assms by (simp add: lower_chr_def)
  have "lower_chr x = c \<longleftrightarrow> x = c"
  proof (cases "lower_chr x = x")
    case True
    then show ?thesis by simp
  next
    case False
    then have up: "(65 \<le> (of_char x :: nat) \<and> (of_char x :: nat) \<le> 90) \<or>
        (192 \<le> (of_char x :: nat) \<and> (of_char x :: nat) \<le> 222 \<and> (of_char x :: nat) \<noteq> 215)"
      and lx: "lower_chr x = char_of ((of_char x :: nat) + 32)"
      by (auto simp: lower_chr_def Let_def split: if_splits)
    have "(of_char (lower_chr x) :: nat) = of_char x + 32"
      unfolding lx using up by auto
    with up assms have "lower_chr x \<noteq> c" "x \<noteq> c" by auto
    then show ?thesis by simp
  qed
  with True lc show ?thesis by (auto simp: chr_eq_def)
qed

lemma chr_eq_simps [simp]:
  "chr_eq ic CHR ''/'' x = (CHR ''/'' = x)" "chr_eq ic CHR ''.'' x = (CHR ''.'' = x)"
  "chr_eq ic CHR ''-'' x = (CHR ''-'' = x)" "chr_eq ic CHR '' '' x = (CHR '' '' = x)"
  "chr_eq ic CHR ''0'' x = (CHR ''0'' = x)" "chr_eq ic CHR ''1'' x = (CHR ''1'' = x)"
  "chr_eq ic CHR ''2'' x = (CHR ''2'' = x)" "chr_eq ic CHR ''3'' x = (CHR ''3'' = x)"
  "chr_eq ic CHR ''4'' x = (CHR ''4'' = x)" "chr_eq ic CHR ''5'' x = (CHR ''5'' = x)"
  "chr_eq ic CHR ''6'' x = (CHR ''6'' = x)" "chr_eq ic CHR ''7'' x = (CHR ''7'' = x)"
  "chr_eq ic CHR ''8'' x = (CHR ''8'' = x)" "chr_eq ic CHR ''9'' x = (CHR ''9'' = x)"
  by (simp_all add: chr_eq_nonletter)


lemma mt_sep_iff:
  assumes "of_char c < (65::nat)"
  shows "(p', r', g') \<in> set (mt ic (chr c) (p, r, g)) \<longleftrightarrow> (r = c # r' \<and> p' = c # p \<and> g' = g)"
  by (auto simp: chr_def chr_eq_nonletter[OF assms] split: list.splits)

lemma strptime_valid: "strptime ds fmt = Some (y, m, d) \<Longrightarrow> valid_date y m d"
  by (auto simp: strptime_def Let_def split: option.splits list.splits prod.splits if_splits)

lemma month_directive:
  assumes "(p', r', g') \<in> set (mt ic (the (directive CHR ''m'')) (p, r, g))"
  shows "\<exists>u. r = u @ r' \<and> p' = rev u @ p \<and> g' = g @ [u]"
proof -
  from assms obtain u g1 where
    1: "(p', r', g1) \<in> set (mt ic (Alt (cat [chr CHR ''1'', Cls (OneOf ''012'')])
        (Alt (cat [chr CHR ''0'', Cls (OneOf ''123456789'')]) (Cls (OneOf ''123456789'')))) (p, r, g))"
    and 2: "r = u @ r'" "p' = rev u @ p" "g' = g1 @ [u]"
    unfolding directive_def by (simp only: mt_Group_iff option.sel if_True if_False char.inject simp_thms) blast
  from 1 have "g1 = g"
    by (auto simp: cat_def chr_def split: list.splits if_splits)
  with 2 show ?thesis by blast
qed

lemma day_directive:
  assumes "(p', r', g') \<in> set (mt ic (the (directive CHR ''d'')) (p, r, g))"
  shows "\<exists>u. r = u @ r' \<and> p' = rev u @ p \<and> g' = g @ [u]"
proof -
  from assms obtain u g1 where
    1: "(p', r', g1) \<in> set (mt ic (Alt (cat [chr CHR ''3'', Cls (OneOf ''01'')])
        (Alt (cat [Cls (OneOf ''12''), Cls Digit])
        (Alt (cat [chr CHR ''0'', Cls (OneOf ''123456789'')])
        (Alt (Cls (OneOf ''123456789''))
             (cat [chr CHR '' '', Cls (OneOf ''123456789'')]))))) (p, r, g))"
    and 2: "r = u @ r'" "p' = rev u @ p" "g' = g1 @ [u]"
    unfolding directive_def by (simp only: mt_Group_iff option.sel if_True if_False char.inject simp_thms) blast
  from 1 have "g1 = g"
    by (auto simp: cat_def chr_def split: list.splits if_splits)
  with 2 show ?thesis by blast
qed

lemma two_digit_group:
  assumes "(p', r', g') \<in> set (mt ic (Group (cat [Cls Digit, Cls Digit])) (p, r, g))"
  shows "\<exists>u. r = u @ r' \<and> p' = rev u @ p \<and> g' = g @ [u] \<and> digit_str 2 2 u"
  using assms unfolding cat_def foldr.simps o_apply
  by (simp only: mt_Group_iff mt_Seq_iff mt_Cls_iff mt_Eps_iff) (auto simp: digit_str_def)


text \<open>What a successful \<open>strptime\<close> with a format \<open>%m\<close>, \<open>%d\<close>, \<open>%y\<close> read as the year.\<close>

lemma strptime_two_digit_year:
  assumes ok: "strptime ds [CHR ''%'', CHR ''m'', c, CHR ''%'', CHR ''d'', c, CHR ''%'', CHR ''y''] = Some (y, m, d)"
    and c: "c = CHR ''/'' \<or> c = CHR ''.''"
  shows "\<exists>yy. digit_str 2 2 yy \<and> endswith ds yy \<and>
           y = (if int_of_digits yy \<le> 68 then int_of_digits yy + 2000 else int_of_digits yy + 1900)"
proof -
  define rm where "rm = the (directive CHR ''m'')"
  define rd where "rd = the (directive CHR ''d'')"
  define ry where "ry = Group (cat [Cls Digit, Cls Digit])"
  define R where "R = Seq rm (Seq (chr c) (Seq rd (Seq (chr c) (Seq ry Eps))))"
  have c65: "of_char c < (65::nat)" and cp: "c \<noteq> CHR ''%''" using c by auto
  have fr: "format_regex [CHR ''%'', CHR ''m'', c, CHR ''%'', CHR ''d'', c, CHR ''%'', CHR ''y'']
            = Some (R, ''mdy'')"
    using cp by (simp add: directive_def R_def rm_def rd_def ry_def)
  from ok obtain p gs sts where
    hd: "mt True R ([], ds, []) = (p, [], gs) # sts" and
    res: "(let found = map_of (zip ''mdy'' gs);
               year = (case found CHR ''y'' of
                         Some y \<Rightarrow> (if int_of_digits y \<le> 68 then int_of_digits y + 2000
                                    else int_of_digits y + 1900)
                       | None \<Rightarrow> (case found CHR ''Y'' of Some y \<Rightarrow> int_of_digits y | None \<Rightarrow> 1900));
               month = (case found CHR ''m'' of Some m \<Rightarrow> int_of_digits m | None \<Rightarrow> 1);
               day = (case found CHR ''d'' of Some d \<Rightarrow> int_of_digits (strip d) | None \<Rightarrow> 1)
           in if valid_date year month day then Some (year, month, day) else None) = Some (y, m, d)"
    unfolding strptime_def fr by (auto split: list.splits prod.splits if_splits)
  from hd have "(p, [], gs) \<in> set (mt True R ([], ds, []))" by simp
  then obtain p1 r1 g1 p2 r2 g2 p3 r3 g3 p4 r4 g4 where
    s1: "(p1, r1, g1) \<in> set (mt True rm ([], ds, []))" and
    s2: "(p2, r2, g2) \<in> set (mt True (chr c) (p1, r1, g1))" and
    s3: "(p3, r3, g3) \<in> set (mt True rd (p2, r2, g2))" and
    s4: "(p4, r4, g4) \<in> set (mt True (chr c) (p3, r3, g3))" and
    s5: "(p, [], gs) \<in> set (mt True ry (p4, r4, g4))"
    unfolding R_def by (simp only: mt_Seq_iff mt_Eps_iff) blast
  from month_directive[OF s1[unfolded rm_def]] obtain u1 where u1: "ds = u1 @ r1" "g1 = [u1]" by auto
  from s2 have e2: "r1 = c # r2" "g2 = g1" by (simp_all add: mt_sep_iff[OF c65])
  from day_directive[OF s3[unfolded rd_def]] obtain u2 where u2: "r2 = u2 @ r3" "g3 = g2 @ [u2]" by auto
  from s4 have e4: "r3 = c # r4" "g4 = g3" by (simp_all add: mt_sep_iff[OF c65])
  from two_digit_group[OF s5[unfolded ry_def]] obtain yy where
    yy: "r4 = yy @ []" "gs = g4 @ [yy]" "digit_str 2 2 yy" by auto
  have gs: "gs = [u1, u2, yy]" and ds: "ds = u1 @ c # u2 @ c # yy"
    using u1 e2 u2 e4 yy by simp_all
  from res gs have "y = (if int_of_digits yy \<le> 68 then int_of_digits yy + 2000 else int_of_digits yy + 1900)"
    by (auto simp: Let_def split: if_splits)
  moreover from ds have "endswith ds yy" by (simp add: endswith_def)
  ultimately show ?thesis using yy by blast
qed


section \<open>The free-text date extractor\<close>

lemma convert_match_cases:
  assumes "convert_match f ds = Some r"
  shows "(f = ''%Y'' \<and> r = ds @ ''-01-01'') \<or>
         (f \<noteq> ''%Y'' \<and> (\<exists>y m d. strptime ds f = Some (y, m, d) \<and>
                          r = fmt_d 4 y @ ''-'' @ fmt_d 2 m @ ''-'' @ fmt_d 2 d))"
  using assms by (auto simp: convert_match_def split: if_splits)

text \<open>A result of the loop comes from one of its patterns.\<close>

lemma extract_loop_origin:
  "extract_loop ps title = Some r \<Longrightarrow>
     \<exists>(p, f) \<in> set ps. \<exists>g. re_search False p title = Some g \<and> convert_match f (g ! 0) = Some r"
proof (induction ps)
  case Nil
  then show ?case by simp
next
  case (Cons pf ps)
  obtain p f where pf: "pf = (p, f)" by (cases pf)
  show ?case
  proof (cases "re_search False p title")
    case None
    with Cons pf show ?thesis by auto
  next
    case (Some g)
    show ?thesis
    proof (cases "convert_match f (g ! 0)")
      case None
      with Some Cons pf show ?thesis by auto
    next
      case conv: (Some r')
      with Some Cons.prems pf have "r' = r" by simp
      with Some conv pf show ?thesis by auto
    qed
  qed
qed

lemma year_pattern_inv:
  assumes "re_search False (Group (digits 4 4)) title = Some g"
  shows "\<exists>u. g = [u] \<and> digit_str 4 4 u"
proof -
  from re_search_SomeD[OF assms] obtain p r p' r' where
    "(p', r', g) \<in> set (mt False (Group (digits 4 4)) (p, r, []))" by blast
  then show ?thesis
    by (simp only: mt_Group_iff) (auto dest!: mt_digitsD)
qed

lemma extracted_date_exists:
  assumes "extract_date_from_title title = Some r"
  shows "canonical_shape r \<and> 1 \<le> month_of r \<and> month_of r \<le> 12 \<and> 1 \<le> day_of r
         \<and> day_of r \<le> days_in_month (year_of r) (month_of r)"
proof -
  from assms have "extract_loop date_patterns title = Some r"
    by (simp add: extract_date_from_title_def split: if_splits)
  from extract_loop_origin[OF this] obtain p f g where
    pf: "(p, f) \<in> set date_patterns" and g: "re_search False p title = Some g"
    and conv: "convert_match f (g ! 0) = Some r" by blast
  from convert_match_cases[OF conv] show ?thesis
  proof (elim disjE conjE exE)
    assume f: "f = ''%Y''" and r: "r = g ! 0 @ ''-01-01''"
    from pf f have "p = Group (digits 4 4)" by (auto simp: date_patterns_def)
    with g year_pattern_inv obtain u where u: "g = [u]" "digit_str 4 4 u" by blast
    have d01: "digit_str 2 2 ''01''" by (simp add: digit_str_def is_digit_def)
    have r': "r = u @ ''-'' @ ''01'' @ ''-'' @ ''01''" using r u by simp
    have "canonical_shape r" unfolding r' using u(2) d01 d01 by (rule shape_assembled)
    moreover have "month_of r = 1" "day_of r = 1"
      unfolding r' using fields_of_assembled(2,3)[of u "''01''" "''01''"] digit_str_length[OF u(2)]
      by (simp_all add: int_of_digits_def digit_val_def)
    ultimately show ?thesis by (simp add: days_in_month_def)
  next
    fix y m d
    assume sp: "strptime (g ! 0) f = Some (y, m, d)"
      and r: "r = fmt_d 4 y @ ''-'' @ fmt_d 2 m @ ''-'' @ fmt_d 2 d"
    from strptime_valid[OF sp] have v: "valid_date y m d" .
    from formatted_date[OF v] v show ?thesis unfolding r by (simp add: valid_date_def)
  qed
qed


lemma century_20_value: "digit_str 2 2 y \<Longrightarrow> int_of_digits (''20'' @ y) = 2000 + int_of_digits y"
  by (auto dest!: digit_str_2_2D simp: int_of_digits_def digit_val_def)

lemma std_two_digit_year:
  assumes "digit_str 1 2 a" "digit_str 1 2 b" "digit_str 2 2 y"
  shows "year_of (standardize_date (a @ ''/'' @ b @ ''/'' @ y)) = 2000 + int_of_digits y"
    and "year_of (standardize_date (a @ ''.'' @ b @ ''.'' @ y)) = 2000 + int_of_digits y"
proof -
  have l: "length (''20'' @ y) = 4" using assms(3) by (simp add: digit_str_def)
  note za = zfill_digits(1)[OF assms(1)] and zb = zfill_digits(1)[OF assms(2)]
  have "standardize_date (a @ ''/'' @ b @ ''/'' @ y) = (''20'' @ y) @ ''-'' @ zfill 2 a @ ''-'' @ zfill 2 b"
    using std_slash2[OF assms] by simp
  then show "year_of (standardize_date (a @ ''/'' @ b @ ''/'' @ y)) = 2000 + int_of_digits y"
    using fields_of_assembled(1)[OF l za zb] century_20_value[OF assms(3)] by (simp only:)
  have "standardize_date (a @ ''.'' @ b @ ''.'' @ y) = (''20'' @ y) @ ''-'' @ zfill 2 b @ ''-'' @ zfill 2 a"
    using std_dot2[OF assms] by simp
  then show "year_of (standardize_date (a @ ''.'' @ b @ ''.'' @ y)) = 2000 + int_of_digits y"
    using fields_of_assembled(1)[OF l zb za] century_20_value[OF assms(3)] by (simp only:)
qed

lemma convert_two_digit_year:
  assumes f: "f = ''%m/%d/%y'' \<or> f = ''%m.%d.%y''" and conv: "convert_match f ds = Some r"
  shows "\<exists>yy. digit_str 2 2 yy \<and> endswith ds yy \<and>
           year_of r = (if int_of_digits yy \<le> 68 then 2000 + int_of_digits yy else 1900 + int_of_digits yy)"
proof -
  from f have "f \<noteq> ''%Y''" by auto
  with convert_match_cases[OF conv] obtain y m d where
    sp: "strptime ds f = Some (y, m, d)" and r: "r = fmt_d 4 y @ ''-'' @ fmt_d 2 m @ ''-'' @ fmt_d 2 d"
    by blast
  from f obtain c where c: "c = CHR ''/'' \<or> c = CHR ''.''"
    and fc: "f = [CHR ''%'', CHR ''m'', c, CHR ''%'', CHR ''d'', c, CHR ''%'', CHR ''y'']" by auto
  from strptime_two_digit_year[OF sp[unfolded fc] c] obtain yy where
    yy: "digit_str 2 2 yy" "endswith ds yy"
    "y = (if int_of_digits yy \<le> 68 then int_of_digits yy + 2000 else int_of_digits yy + 1900)" by blast
  from formatted_date(2)[OF strptime_valid[OF sp]] have "year_of r = y" unfolding r .
  with yy show ?thesis by (intro exI[of _ yy]) auto
qed

lemma extract_1_2_99: "extract_date_from_title ''Thou on 1/2/99'' = Some ''1999-01-02''"
  by code_simp

lemma convert_1_2_99: "convert_match ''%m/%d/%y'' ''1/2/99'' = Some ''1999-01-02''"
  by code_simp

text \<open>
  C1 (as amended). In \<open>standardize_date\<close> a two-digit year YY of a slashed or dotted date
  becomes the year 2000 + YY, for every YY. In \<open>extract_date_from_title\<close> every result comes
  from one pattern of the list and the conversion of its match; the conversion of a match
  of a two-digit-year pattern reads the year with \<open>%y\<close>: 2000 + YY up to 68, 1900 + YY from 69.
\<close>

theorem C1_two_digit_year:
  "(\<forall>a b y. digit_str 1 2 a \<and> digit_str 1 2 b \<and> digit_str 2 2 y \<longrightarrow>
       year_of (standardize_date (a @ ''/'' @ b @ ''/'' @ y)) = 2000 + int_of_digits y \<and>
       year_of (standardize_date (a @ ''.'' @ b @ ''.'' @ y)) = 2000 + int_of_digits y)
   \<and> (\<forall>title r. extract_date_from_title title = Some r \<longrightarrow>
       (\<exists>(p, f) \<in> set date_patterns. \<exists>g. re_search False p title = Some g \<and> convert_match f (g ! 0) = Some r))
   \<and> (\<forall>f ds r. (f = ''%m/%d/%y'' \<or> f = ''%m.%d.%y'') \<and> convert_match f ds = Some r \<longrightarrow>
       (\<exists>yy. digit_str 2 2 yy \<and> endswith ds yy \<and>
          year_of r = (if int_of_digits yy \<le> 68 then 2000 + int_of_digits yy else 1900 + int_of_digits yy)))"
proof (intro conjI allI impI)
  fix title r
  assume "extract_date_from_title title = Some r"
  then have "extract_loop date_patterns title = Some r"
    by (simp add: extract_date_from_title_def split: if_splits)
  from extract_loop_origin[OF this]
  show "\<exists>(p, f) \<in> set date_patterns. \<exists>g. re_search False p title = Some g \<and> convert_match f (g ! 0) = Some r" .
qed (use std_two_digit_year convert_two_digit_year in blast)+

theorem C1_two_digit_year_witness:
  "year_of (standardize_date ''3/12/14'') = 2014 \<and> year_of (standardize_date ''12.3.99'') = 2099
   \<and> extract_date_from_title ''Thou on 1/2/99'' = Some ''1999-01-02''
   \<and> convert_match ''%m/%d/%y'' ''1/2/99'' = Some ''1999-01-02''
   \<and> (\<exists>yy. digit_str 2 2 yy \<and> endswith ''1/2/99'' yy \<and>
         year_of ''1999-01-02'' = (if int_of_digits yy \<le> 68 then 2000 + int_of_digits yy else 1900 + int_of_digits yy))"
proof -
  have d: "digit_str 1 2 ''3''" "digit_str 1 2 ''12''" "digit_str 2 2 ''14''" "digit_str 2 2 ''99''"
    by (simp_all add: digit_str_def is_digit_def)
  have v: "int_of_digits ''14'' = 14" "int_of_digits ''99'' = 99"
    by (simp_all add: int_of_digits_def digit_val_def)
  from C1_two_digit_year have
    1: "\<And>a b y. digit_str 1 2 a \<and> digit_str 1 2 b \<and> digit_str 2 2 y \<Longrightarrow>
       year_of (standardize_date (a @ ''/'' @ b @ ''/'' @ y)) = 2000 + int_of_digits y \<and>
       year_of (standardize_date (a @ ''.'' @ b @ ''.'' @ y)) = 2000 + int_of_digits y"
    and 3: "\<And>f ds r. (f = ''%m/%d/%y'' \<or> f = ''%m.%d.%y'') \<and> convert_match f ds = Some r \<Longrightarrow>
       (\<exists>yy. digit_str 2 2 yy \<and> endswith ds yy \<and>
          year_of r = (if int_of_digits yy \<le> 68 then 2000 + int_of_digits yy else 1900 + int_of_digits yy))"
    by blast+
  from 1[of "''3''" "''12''" "''14''"] 1[of "''12''" "''3''" "''99''"] d v
  have "year_of (standardize_date ''3/12/14'') = 2014" "year_of (standardize_date ''12.3.99'') = 2099"
    by simp_all
  moreover note 3[of "''%m/%d/%y''" "''1/2/99''" "''1999-01-02''"] convert_1_2_99 extract_1_2_99
  ultimately show ?thesis by simp
qed

text \<open>
  The title \<open>Thou on 1/2/99\<close> carries the two-digit year 99 and the extractor returns the
  year 1999, not 2099.
\<close>

theorem C1_counterexample:
  "extract_date_from_title ''Thou on 1/2/99'' = Some ''1999-01-02''
   \<and> year_of ''1999-01-02'' = 1999 \<and> year_of ''1999-01-02'' \<noteq> 2000 + int_of_digits ''99''"
proof -
  have "extract_date_from_title ''Thou on 1/2/99'' = Some ''1999-01-02''" by code_simp
  then show ?thesis by (simp add: year_of_def int_of_digits_def digit_val_def)
qed


lemma extract_loop_skip:
  assumes "re_search False p title = Some g" "convert_match f (g ! 0) = None"
  shows "extract_loop ((p, f) # ps) title = extract_loop ps title"
  using assms by simp

lemma skipped_13_45:
  "re_search False (fst (date_patterns ! 1)) ''13/45/2014'' = Some [''13/45/2014'']"
  "convert_match (snd (date_patterns ! 1)) ''13/45/2014'' = None"
  "extract_date_from_title ''13/45/2014'' = Some ''2014-01-01''"
  "standardize_date ''13/45/2014'' = ''2014-13-45''"
  by code_simp+

lemma skipped_4_31:
  "re_search False (fst (date_patterns ! 2)) ''Thou on 4.31.2012'' = Some [''4.31.2012'']"
  "convert_match (snd (date_patterns ! 2)) ''4.31.2012'' = None"
  "extract_date_from_title ''Thou on 4.31.2012'' = Some ''2012-01-01''"
  by code_simp+

text \<open>
  C10. The free-text date extractor accepts a match only after \<open>strptime\<close> has accepted it:
  every date it returns has the shape \<open>YYYY-MM-DD\<close> with a month from 1 to 12 and a day that
  the month has in that year (the bare-year case returns January 1). A pattern whose first
  match is not a calendar date is passed over and the later patterns are tried:
  \<open>13/45/2014\<close> and \<open>4.31.2012\<close> fall through to the bare year, while \<open>standardize_date\<close>
  turns \<open>13/45/2014\<close> into \<open>2014-13-45\<close>.
\<close>

theorem C10_extractor_validates:
  "(\<forall>title r. extract_date_from_title title = Some r \<longrightarrow>
       canonical_shape r \<and> 1 \<le> month_of r \<and> month_of r \<le> 12 \<and> 1 \<le> day_of r
       \<and> day_of r \<le> days_in_month (year_of r) (month_of r))
   \<and> (\<forall>f ds r. f \<noteq> ''%Y'' \<and> convert_match f ds = Some r \<longrightarrow>
         (\<exists>y m d. strptime ds f = Some (y, m, d) \<and> valid_date y m d))
   \<and> (\<forall>p f ps title g. re_search False p title = Some g \<and> convert_match f (g ! 0) = None \<longrightarrow>
         extract_loop ((p, f) # ps) title = extract_loop ps title)
   \<and> re_search False (fst (date_patterns ! 1)) ''13/45/2014'' = Some [''13/45/2014'']
   \<and> convert_match (snd (date_patterns ! 1)) ''13/45/2014'' = None
   \<and> extract_date_from_title ''13/45/2014'' = Some ''2014-01-01''
   \<and> standardize_date ''13/45/2014'' = ''2014-13-45''
   \<and> re_search False (fst (date_patterns ! 2)) ''Thou on 4.31.2012'' = Some [''4.31.2012'']
   \<and> convert_match (snd (date_patterns ! 2)) ''4.31.2012'' = None
   \<and> extract_date_from_title ''Thou on 4.31.2012'' = Some ''2012-01-01''"
proof -
  have a: "\<forall>title r. extract_date_from_title title = Some r \<longrightarrow>
       canonical_shape r \<and> 1 \<le> month_of r \<and> month_of r \<le> 12 \<and> 1 \<le> day_of r
       \<and> day_of r \<le> days_in_month (year_of r) (month_of r)"
    using extracted_date_exists by blast
  have b: "\<forall>f ds r. f \<noteq> ''%Y'' \<and> convert_match f ds = Some r \<longrightarrow>
         (\<exists>y m d. strptime ds f = Some (y, m, d) \<and> valid_date y m d)"
    using convert_match_cases strptime_valid by blast
  have c: "\<forall>p f ps title g. re_search False p title = Some g \<and> convert_match f (g ! 0) = None \<longrightarrow>
         extract_loop ((p, f) # ps) title = extract_loop ps title"
    using extract_loop_skip by blast
  from a b c skipped_13_45 skipped_4_31 show ?thesis by (simp only: simp_thms)
qed

theorem C10_extractor_validates_witness:
  "extract_date_from_title ''Thou @ The Che Cafe on 01.12.12'' = Some ''2012-01-12''
   \<and> month_of ''2012-01-12'' = 1 \<and> day_of ''2012-01-12'' = 12
   \<and> day_of ''2012-01-12'' \<le> days_in_month (year_of ''2012-01-12'') (month_of ''2012-01-12'')
   \<and> ''%m/%d/%Y'' \<noteq> ''%Y'' \<and> convert_match ''%m/%d/%Y'' ''2/29/2016'' = Some ''2016-02-29''
   \<and> (\<exists>y m d. strptime ''2/29/2016'' ''%m/%d/%Y'' = Some (y, m, d) \<and> valid_date y m d)
   \<and> re_search False (fst (date_patterns ! 1)) ''13/45/2014'' = Some [''13/45/2014'']
   \<and> convert_match (snd (date_patterns ! 1)) ([''13/45/2014''] ! 0) = None
   \<and> extract_loop (date_patterns ! 1 # drop 2 date_patterns) ''13/45/2014''
       = extract_loop (drop 2 date_patterns) ''13/45/2014''"
proof -
  have e: "extract_date_from_title ''Thou @ The Che Cafe on 01.12.12'' = Some ''2012-01-12''"
    by code_simp
  have cv: "convert_match ''%m/%d/%Y'' ''2/29/2016'' = Some ''2016-02-29''" by code_simp
  have s: "re_search False (fst (date_patterns ! 1)) ''13/45/2014'' = Some [''13/45/2014'']"
    "convert_match (snd (date_patterns ! 1)) ([''13/45/2014''] ! 0) = None"
    by code_simp+
  have v: "month_of ''2012-01-12'' = 1" "day_of ''2012-01-12'' = 12"
    by (simp_all add: month_of_def day_of_def int_of_digits_def digit_val_def)
  from C10_extractor_validates have
    1: "\<And>title r. extract_date_from_title title = Some r \<Longrightarrow>
       canonical_shape r \<and> 1 \<le> month_of r \<and> month_of r \<le> 12 \<and> 1 \<le> day_of r
       \<and> day_of r \<le> days_in_month (year_of r) (month_of r)"
    and 2: "\<And>f ds r. f \<noteq> ''%Y'' \<and> convert_match f ds = Some r \<Longrightarrow>
         (\<exists>y m d. strptime ds f = Some (y, m, d) \<and> valid_date y m d)"
    and 3: "\<And>p f ps title g. re_search False p title = Some g \<and> convert_match f (g ! 0) = None \<Longrightarrow>
         extract_loop ((p, f) # ps) title = extract_loop ps title"
    by blast+
  have 4: "extract_loop (date_patterns ! 1 # drop 2 date_patterns) ''13/45/2014''
       = extract_loop (drop 2 date_patterns) ''13/45/2014''"
    using 3[of "fst (date_patterns ! 1)" "''13/45/2014''" "[''13/45/2014'']" "snd (date_patterns ! 1)"
        "drop 2 date_patterns"] s by simp
  from 1[OF e] 2[of "''%m/%d/%Y''" "''2/29/2016''" "''2016-02-29''"] e cv s v 4
  show ?thesis by simp
qed

section \<open>The issue detector\<close>

lemma extracted_date_nonempty: "extract_date_from_title title = Some t \<Longrightarrow> t \<noteq> []"
  using extracted_date_exists[of title t] by (auto simp: canonical_shape_def)

lemma endswith_differ: "endswith a s \<Longrightarrow> \<not> endswith b s \<Longrightarrow> a \<noteq> b"
  by auto

lemma check_date_rule:
  assumes "truthy (py_or (it_date it) (it_publicdate it))"
  shows "check_date it title (issues, suggestions) =
       (case spec_date_rule (get_or_empty (py_or (it_date it) (it_publicdate it)))
               (extract_date_from_title title) of
          Some s \<Rightarrow> (issues @ [bad_date_format], suggestions(''date'' \<mapsto> s))
        | None \<Rightarrow> (issues, suggestions))"
proof (cases "extract_date_from_title title")
  case None
  with assms show ?thesis
    by (simp add: check_date_def spec_date_rule_def Let_def truthy_def)
next
  case (Some t)
  from extracted_date_nonempty[OF Some] have "truthy (Some t)" by (simp add: truthy_def)
  with assms Some show ?thesis
    by (auto simp: check_date_def spec_date_rule_def Let_def get_or_empty_def dest: endswith_differ)
qed

lemma std_2016: "standardize_date ''2016'' = ''2016-01-01''"
  by code_simp

lemma check_date_2016:
  assumes "it_date it = Some ''2016''" "extract_date_from_title title = Some ''2016-02-28''"
  shows "check_date it title (issues, suggestions) =
           (issues @ [bad_date_format], suggestions(''date'' \<mapsto> ''2016-02-28''))"
proof -
  from assms(1) have e: "py_or (it_date it) (it_publicdate it) = Some ''2016''"
    by (simp add: py_or_def truthy_def)
  then have t: "truthy (py_or (it_date it) (it_publicdate it))" by (simp add: truthy_def)
  show ?thesis
    unfolding check_date_rule[OF t] e assms(2)
    by (simp add: spec_date_rule_def get_or_empty_def std_2016 endswith_def)
qed

lemma analyze_item_2016:
  assumes "it_date it = Some ''2016''"
    "extract_date_from_title (get_or_empty (it_title it)) = Some ''2016-02-28''"
  shows "\<exists>entry. analyze_item it = Some entry \<and> bad_date_format \<in> set (i_issues entry)
            \<and> i_suggestions entry ''date'' = Some ''2016-02-28''"
proof -
  obtain i0 s0 where f: "check_venue it (get_or_empty (it_title it))
      (check_band it (get_or_empty (it_title it)) ([], Map.empty)) = (i0, s0)"
    by (cases "check_venue it (get_or_empty (it_title it))
      (check_band it (get_or_empty (it_title it)) ([], Map.empty))")
  show ?thesis
    unfolding analyze_item_def Let_def f check_date_2016[OF assms] by simp
qed

text \<open>
  C2. For a record with a stored date (primary, else public), the date check of the issue
  detector is the rule of the specification: the title date wins when it exists, the
  canonical stored date ends in \<open>-01-01\<close>, the title date does not, and the two differ;
  otherwise a canonical date that differs from the stored string is suggested; otherwise
  nothing is flagged. A stored \<open>2016\<close> with title date \<open>2016-02-28\<close> is flagged
  \<open>bad_date_format\<close> with the suggestion \<open>2016-02-28\<close>.
\<close>

theorem C2_date_rule:
  "(\<forall>it title issues suggestions. truthy (py_or (it_date it) (it_publicdate it)) \<longrightarrow>
      check_date it title (issues, suggestions) =
       (case spec_date_rule (get_or_empty (py_or (it_date it) (it_publicdate it)))
               (extract_date_from_title title) of
          Some s \<Rightarrow> (issues @ [bad_date_format], suggestions(''date'' \<mapsto> s))
        | None \<Rightarrow> (issues, suggestions)))
   \<and> (\<forall>it title issues suggestions.
        it_date it = Some ''2016'' \<and> extract_date_from_title title = Some ''2016-02-28'' \<longrightarrow>
        check_date it title (issues, suggestions) =
           (issues @ [bad_date_format], suggestions(''date'' \<mapsto> ''2016-02-28'')))
   \<and> (\<forall>it. it_date it = Some ''2016''
          \<and> extract_date_from_title (get_or_empty (it_title it)) = Some ''2016-02-28'' \<longrightarrow>
        (\<exists>entry. analyze_item it = Some entry \<and> bad_date_format \<in> set (i_issues entry)
            \<and> i_suggestions entry ''date'' = Some ''2016-02-28''))"
  using check_date_rule check_date_2016 analyze_item_2016 by blast

theorem C2_date_rule_witness:
  "truthy (py_or (Some ''2016-02-28T00:00:00Z'') None)
   \<and> check_date \<lparr>it_identifier = Some ''x'', it_title = Some ''Thou'', it_band = Some ''Thou'',
                  it_venue = Some ''Che'', it_date = Some ''2016-02-28T00:00:00Z'', it_publicdate = None\<rparr>
        ''Thou'' ([], Map.empty) = ([bad_date_format], [''date'' \<mapsto> ''2016-02-28''])
   \<and> extract_date_from_title ''Thou @ Che Cafe on 2016-02-28'' = Some ''2016-02-28''
   \<and> check_date \<lparr>it_identifier = Some ''x'', it_title = Some ''Thou @ Che Cafe on 2016-02-28'',
                  it_band = Some ''Thou'', it_venue = Some ''Che Cafe'', it_date = Some ''2016'',
                  it_publicdate = None\<rparr>
        ''Thou @ Che Cafe on 2016-02-28'' ([], Map.empty) = ([bad_date_format], [''date'' \<mapsto> ''2016-02-28''])
   \<and> (\<exists>entry. analyze_item \<lparr>it_identifier = Some ''x'', it_title = Some ''Thou @ Che Cafe on 2016-02-28'',
                  it_band = Some ''Thou'', it_venue = Some ''Che Cafe'', it_date = Some ''2016'',
                  it_publicdate = None\<rparr> = Some entry \<and> bad_date_format \<in> set (i_issues entry)
            \<and> i_suggestions entry ''date'' = Some ''2016-02-28'')"
proof -
  define it1 where "it1 = \<lparr>it_identifier = Some ''x'', it_title = Some ''Thou'', it_band = Some ''Thou'',
                  it_venue = Some ''Che'', it_date = Some ''2016-02-28T00:00:00Z'', it_publicdate = None\<rparr>"
  define it2 where "it2 = \<lparr>it_identifier = Some ''x'', it_title = Some ''Thou @ Che Cafe on 2016-02-28'',
                  it_band = Some ''Thou'', it_venue = Some ''Che Cafe'', it_date = Some ''2016'',
                  it_publicdate = None\<rparr>"
  have t: "truthy (py_or (Some ''2016-02-28T00:00:00Z'') None)" by (simp add: py_or_def truthy_def)
  have e0: "extract_date_from_title ''Thou'' = None" by code_simp
  have s0: "standardize_date ''2016-02-28T00:00:00Z'' = ''2016-02-28''" by code_simp
  have e: "extract_date_from_title ''Thou @ Che Cafe on 2016-02-28'' = Some ''2016-02-28''" by code_simp
  from C2_date_rule have
    1: "\<And>it title issues suggestions. truthy (py_or (it_date it) (it_publicdate it)) \<Longrightarrow>
      check_date it title (issues, suggestions) =
       (case spec_date_rule (get_or_empty (py_or (it_date it) (it_publicdate it)))
               (extract_date_from_title title) of
          Some s \<Rightarrow> (issues @ [bad_date_format], suggestions(''date'' \<mapsto> s))
        | None \<Rightarrow> (issues, suggestions))"
    and 2: "\<And>it title issues suggestions.
        it_date it = Some ''2016'' \<and> extract_date_from_title title = Some ''2016-02-28'' \<Longrightarrow>
        check_date it title (issues, suggestions) =
           (issues @ [bad_date_format], suggestions(''date'' \<mapsto> ''2016-02-28''))"
    and 3: "\<And>it. it_date it = Some ''2016''
          \<and> extract_date_from_title (get_or_empty (it_title it)) = Some ''2016-02-28'' \<Longrightarrow>
        (\<exists>entry. analyze_item it = Some entry \<and> bad_date_format \<in> set (i_issues entry)
            \<and> i_suggestions entry ''date'' = Some ''2016-02-28'')"
    by blast+
  have a: "check_date it1 ''Thou'' ([], Map.empty) = ([bad_date_format], [''date'' \<mapsto> ''2016-02-28''])"
    using 1[of it1 "''Thou''" "[]" Map.empty] t
    by (simp add: it1_def e0 s0 spec_date_rule_def py_or_def truthy_def get_or_empty_def)
  have b: "check_date it2 ''Thou @ Che Cafe on 2016-02-28'' ([], Map.empty)
             = ([bad_date_format], [''date'' \<mapsto> ''2016-02-28''])"
    using 2[of it2 "''Thou @ Che Cafe on 2016-02-28''" "[]" Map.empty] e by (simp add: it2_def)
  have c: "\<exists>entry. analyze_item it2 = Some entry \<and> bad_date_format \<in> set (i_issues entry)
            \<and> i_suggestions entry ''date'' = Some ''2016-02-28''"
    using 3[of it2] e by (simp add: it2_def get_or_empty_def)
  from t a b c e show ?thesis unfolding it1_def it2_def by simp
qed

section \<open>The scenario of the title \<open>Thou @ The Che Cafe on 01.12.12\<close>\<close>

lemma band_loop_accepts:
  "band_loop ps title = Some b \<Longrightarrow>
     length b > 2 \<and> lower b \<notin> set [''live'', ''show'', ''concert'', ''performance'']"
  by (induction ps) (auto simp: Let_def split: option.splits if_splits)

lemma thou_fields:
  "extract_band_from_title ''Thou @ The Che Cafe on 01.12.12'' = Some ''Thou''"
  "extract_venue_from_title ''Thou @ The Che Cafe on 01.12.12'' = Some ''The Che Cafe''"
  "extract_date_from_title ''Thou @ The Che Cafe on 01.12.12'' = Some ''2012-01-12''"
  by code_simp+

text \<open>
  C5. For the title \<open>Thou @ The Che Cafe on 01.12.12\<close> the extractors return the performer
  \<open>Thou\<close>, the venue \<open>The Che Cafe\<close> and the date \<open>2012-01-12\<close>; a record with that title
  and no band, venue or date gets the issues \<open>missing_band\<close>, \<open>missing_venue\<close>,
  \<open>missing_date\<close> and exactly these three suggestions. Every performer that is returned is
  longer than two characters and is not in the stoplist.
\<close>

theorem C5_thou_scenario:
  "extract_band_from_title ''Thou @ The Che Cafe on 01.12.12'' = Some ''Thou''
   \<and> extract_venue_from_title ''Thou @ The Che Cafe on 01.12.12'' = Some ''The Che Cafe''
   \<and> extract_date_from_title ''Thou @ The Che Cafe on 01.12.12'' = Some ''2012-01-12''
   \<and> analyze_item \<lparr>it_identifier = ident, it_title = Some ''Thou @ The Che Cafe on 01.12.12'',
                    it_band = None, it_venue = None, it_date = None, it_publicdate = None\<rparr>
       = Some \<lparr>i_identifier = get_or_empty ident, i_title = ''Thou @ The Che Cafe on 01.12.12'',
               i_current = \<lparr>c_band = None, c_venue = None, c_date = None\<rparr>,
               i_issues = [missing_band, missing_venue, missing_date],
               i_suggestions = [''band'' \<mapsto> ''Thou'', ''venue'' \<mapsto> ''The Che Cafe'',
                                ''date'' \<mapsto> ''2012-01-12'']\<rparr>
   \<and> (\<forall>title b. extract_band_from_title title = Some b \<longrightarrow>
         length b > 2 \<and> lower b \<notin> set [''live'', ''show'', ''concert'', ''performance''])"
proof -
  have "\<forall>title b. extract_band_from_title title = Some b \<longrightarrow>
         length b > 2 \<and> lower b \<notin> set [''live'', ''show'', ''concert'', ''performance'']"
    using band_loop_accepts by (auto simp: extract_band_from_title_def split: if_splits)
  then show ?thesis
    by (simp add: thou_fields analyze_item_def check_band_def check_venue_def check_date_def
        truthy_def py_or_def get_or_empty_def)
qed

theorem C5_thou_scenario_witness:
  "extract_band_from_title ''Thou @ The Che Cafe on 01.12.12'' = Some ''Thou''
   \<and> length ''Thou'' > 2 \<and> lower ''Thou'' \<notin> set [''live'', ''show'', ''concert'', ''performance'']"
proof -
  have "extract_band_from_title ''Thou @ The Che Cafe on 01.12.12'' = Some ''Thou''" by code_simp
  with C5_thou_scenario[of None] show ?thesis by blast
qed

section \<open>The review order\<close>








section \<open>Searching a title\<close>

lemma rep_exhausted [simp]: "rep ic c 0 (Some 0) g p r = [(p, r)]"
  by (cases r) (simp_all add: Let_def)

text \<open>Positions at which the pattern cannot match are passed over.\<close>

lemma search_from_skip:
  assumes "\<And>k. k < length pre \<Longrightarrow> mt ic r (rev (take k pre) @ p0, drop k pre @ s, []) = []"
  shows "search_from ic r p0 (pre @ s) = search_from ic r (rev pre @ p0) s"
  using assms
proof (induction pre arbitrary: p0)
  case Nil
  then show ?case by simp
next
  case (Cons x xs)
  from Cons.prems[of 0] have 0: "mt ic r (p0, x # xs @ s, []) = []" by simp
  have "search_from ic r (x # p0) (xs @ s) = search_from ic r (rev xs @ x # p0) s"
  proof (rule Cons.IH)
    fix k assume "k < length xs"
    with Cons.prems[of "Suc k"] show "mt ic r (rev (take k xs) @ x # p0, drop k xs @ s, []) = []"
      by simp
  qed
  with 0 show ?case by simp
qed




lemmas search_defs = cat_def digits_def chr_def chr_eq_def






section \<open>The suggestion corrector\<close>

lemma search_loop_origin:
  "search_loop ps s = Some d \<Longrightarrow> \<exists>p \<in> set ps. \<exists>g. re_search False p s = Some g \<and> d = date_of_groups g"
  by (induction ps) (auto split: option.splits)

lemma match_loop_origin:
  "match_loop ps s = Some d \<Longrightarrow> \<exists>p \<in> set ps. \<exists>g. re_match False p s = Some g \<and> d = date_of_groups g"
  by (induction ps) (auto split: option.splits)

lemma date_of_groups_nonempty: "length g = 3 \<or> g ! 0 \<noteq> [] \<Longrightarrow> date_of_groups g \<noteq> []"
  by (auto simp: date_of_groups_def Let_def)












section \<open>The cross-source auditor\<close>

lemma identifier_patterns_groups:
  assumes "p \<in> set identifier_patterns" "re_match False p s = Some g"
  shows "length g = 3 \<or> g ! 0 \<noteq> []"
proof -
  from re_match_SomeD[OF assms(2)] obtain q' r' where
    m: "(q', r', g) \<in> set (mt False p ([], s, []))" by blast
  from assms(1) consider "p = identifier_patterns ! 0" | "p = identifier_patterns ! 1"
    | "p = identifier_patterns ! 2"
    by (auto simp: identifier_patterns_def)
  then show ?thesis
  proof cases
    case 1
    with m show ?thesis
      unfolding identifier_patterns_def cat_def foldr.simps o_apply nth_Cons_0
      by (simp only: mt_iffs) (auto dest!: mt_digitsD)
  next
    case 2
    with m show ?thesis
      unfolding identifier_patterns_def cat_def foldr.simps o_apply
      by (simp only: mt_iffs nth_Cons_Suc nth_Cons_0 One_nat_def) (auto dest!: mt_digitsD)
  next
    case 3
    with m have "(q', r', g) \<in> set (mt False
        (cat [Bol, Group (cat [digits 4 4, chr CHR ''-'', digits 2 2, chr CHR ''-'', digits 2 2]),
           chr CHR ''-'']) ([], s, []))"
      by (simp add: identifier_patterns_def)
    then show ?thesis
      unfolding cat_def foldr.simps o_apply
      by (simp only: mt_iffs) (auto dest!: mt_digitsD)
  qed
qed

lemma audit_title_patterns_groups:
  assumes "p \<in> set audit_title_patterns" "re_search False p s = Some g"
  shows "length g = 3 \<or> g ! 0 \<noteq> []"
proof -
  from re_search_SomeD[OF assms(2)] obtain q r q' r' where
    m: "(q', r', g) \<in> set (mt False p (q, r, []))" by blast
  from assms(1) consider
    (a) "p = cat [chr CHR ''o'', chr CHR ''n'', chr CHR '' '', Group (digits 2 2), chr CHR ''.'',
           Group (digits 2 2), chr CHR ''.'', Group (digits 2 2)]"
    | (b) "p = cat [chr CHR ''o'', chr CHR ''n'', chr CHR '' '', Group (digits 1 2), chr CHR ''/'',
           Group (digits 1 2), chr CHR ''/'', Group (digits 2 4)]"
    | (c) "p = Group (cat [digits 4 4, chr CHR ''-'', digits 2 2, chr CHR ''-'', digits 2 2])"
    | (d) "p = cat [chr CHR ''o'', chr CHR ''n'', chr CHR '' '', Group (digits 2 2), chr CHR ''-'',
           Group (digits 2 2), chr CHR ''-'', Group (digits 2 2)]"
    by (auto simp: audit_title_patterns_def)
  then show ?thesis
  proof cases
    case a
    with m show ?thesis
      unfolding cat_def foldr.simps o_apply
      by (simp only: mt_iffs) (auto dest!: mt_digitsD)
  next
    case b
    with m show ?thesis
      unfolding cat_def foldr.simps o_apply
      by (simp only: mt_iffs) (auto dest!: mt_digitsD)
  next
    case c
    with m show ?thesis
      unfolding cat_def foldr.simps o_apply
      by (simp only: mt_iffs) (auto dest!: mt_digitsD)
  next
    case d
    with m show ?thesis
      unfolding cat_def foldr.simps o_apply
      by (simp only: mt_iffs) (auto dest!: mt_digitsD)
  qed
qed

lemma identifier_date_nonempty: "parse_date_from_identifier s = Some d \<Longrightarrow> d \<noteq> []"
  unfolding parse_date_from_identifier_def
  by (auto dest!: match_loop_origin intro!: date_of_groups_nonempty dest: identifier_patterns_groups)

lemma audit_title_date_nonempty: "audit_parse_date_from_title s = Some d \<Longrightarrow> d \<noteq> []"
  unfolding audit_parse_date_from_title_def
  by (auto dest!: search_loop_origin intro!: date_of_groups_nonempty dest: audit_title_patterns_groups)

lemma audit_item_iff:
  "audit_item fetch e \<noteq> None \<longleftrightarrow>
     (\<exists>i t. parse_date_from_identifier (i_identifier e) = Some i
          \<and> audit_parse_date_from_title (i_title e) = Some t \<and> i \<noteq> t)"
  using identifier_date_nonempty[of "i_identifier e"] audit_title_date_nonempty[of "i_title e"]
  by (cases "parse_date_from_identifier (i_identifier e)"; cases "audit_parse_date_from_title (i_title e)")
     (auto simp: audit_item_def Let_def truthy_def)

lemma audit_item_fields:
  assumes "audit_item fetch e = Some m"
  shows "m_identifier m = i_identifier e \<and> m_title m = i_title e
         \<and> parse_date_from_identifier (i_identifier e) = Some (m_identifier_date m)
         \<and> audit_parse_date_from_title (i_title e) = Some (m_title_date m)
         \<and> m_current_archive_date m = current_date_of (fetch (i_identifier e))"
  using assms
  by (cases "parse_date_from_identifier (i_identifier e)"; cases "audit_parse_date_from_title (i_title e)")
     (auto simp: audit_item_def Let_def truthy_def get_or_empty_def split: if_splits)

lemma stored_date_carried: "md ''date'' = Some d \<Longrightarrow> current_date_of (Some md) = d"
  by (auto simp: current_date_of_def)

text \<open>The first title pattern of the auditor needs \<open>on\<close>, a space and then a digit.\<close>

lemma on_dotted_needs:
  assumes "mt False (audit_title_patterns ! 0) (p, s, []) \<noteq> []"
  shows "3 < length s \<and> is_digit (s ! 3)"
proof -
  from assms obtain st sts where e: "mt False (audit_title_patterns ! 0) (p, s, []) = st # sts"
    by (cases "mt False (audit_title_patterns ! 0) (p, s, [])") auto
  obtain q' r' g where "st = (q', r', g)" by (rule prod_cases3)
  with e have "(q', r', g) \<in> set (mt False (audit_title_patterns ! 0) (p, s, []))" by simp
  then show ?thesis
    unfolding audit_title_patterns_def cat_def foldr.simps o_apply nth_Cons_0
    by (simp only: mt_iffs) (auto dest!: mt_digitsD digit_str_2_2D)
qed

lemma on_01_12_12:
  assumes pre: "\<forall>x \<in> set pre. \<not> is_digit x"
  shows "audit_parse_date_from_title (pre @ ''on 01.12.12'' @ post) = Some ''2012-01-12''"
proof -
  let ?tok = "''on 01.12.12'' @ post"
  have "search_from False (audit_title_patterns ! 0) [] (pre @ ?tok)
        = search_from False (audit_title_patterns ! 0) (rev pre @ []) ?tok"
  proof (rule search_from_skip)
    fix k assume k: "k < length pre"
    let ?s = "drop k pre @ ?tok"
    have "\<not> is_digit (?s ! 3)"
    proof (cases "k + 3 < length pre")
      case True
      then have "3 < length (drop k pre)" by simp
      then have "?s ! 3 = drop k pre ! 3" by (simp only: nth_append if_True)
      also have "\<dots> = pre ! (k + 3)" using True by simp
      finally show ?thesis using pre True by simp
    next
      case False
      with k have "length pre - k = 1 \<or> length pre - k = 2 \<or> length pre - k = 3" by arith
      then show ?thesis by (auto simp: nth_append)
    qed
    with on_dotted_needs[of "rev (take k pre) @ []" ?s]
    show "mt False (audit_title_patterns ! 0) (rev (take k pre) @ [], ?s, []) = []" by blast
  qed
  also have "\<dots> = Some [''01'', ''12'', ''12'']"
    by (simp add: audit_title_patterns_def search_defs is_digit_def)
  finally show ?thesis
    by (simp add: audit_parse_date_from_title_def audit_title_patterns_def re_search_def
        date_of_groups_def zfill_def Let_def)
qed

lemma thou_identifier: "parse_date_from_identifier ''01.20.12_Thou'' = Some ''2012-01-20''"
  by code_simp

lemma thou_mismatch:
  assumes "\<forall>x \<in> set pre. \<not> is_digit x" "i_identifier e = ''01.20.12_Thou''"
    "i_title e = pre @ ''on 01.12.12'' @ post"
  shows "\<exists>m. audit_item fetch e = Some m \<and> m_identifier_date m = ''2012-01-20''
            \<and> m_title_date m = ''2012-01-12''"
  using on_01_12_12[OF assms(1), of post] thou_identifier assms(2,3)
  by (simp add: audit_item_def Let_def truthy_def get_or_empty_def)


text \<open>
  C7 (as amended). The auditor emits a mismatch for an entry exactly when the date of the
  identifier and the date of the title both exist and differ; the mismatch carries the
  identifier, the title, both dates and the date fetched from the archive (the stored
  \<open>date\<close> when the fetched metadata has one). For the identifier \<open>01.20.12_Thou\<close> and a
  title that holds \<open>on 01.12.12\<close> after text without digits, the mismatch has the
  identifier date \<open>2012-01-20\<close> and the title date \<open>2012-01-12\<close>.
\<close>

theorem C7_auditor:
  "(audit_item fetch e \<noteq> None \<longleftrightarrow>
      (\<exists>i t. parse_date_from_identifier (i_identifier e) = Some i
           \<and> audit_parse_date_from_title (i_title e) = Some t \<and> i \<noteq> t))
   \<and> (\<forall>m. audit_item fetch e = Some m \<longrightarrow>
         m_identifier m = i_identifier e \<and> m_title m = i_title e
         \<and> parse_date_from_identifier (i_identifier e) = Some (m_identifier_date m)
         \<and> audit_parse_date_from_title (i_title e) = Some (m_title_date m)
         \<and> m_current_archive_date m = current_date_of (fetch (i_identifier e)))
   \<and> (\<forall>md d. md ''date'' = Some d \<longrightarrow> current_date_of (Some md) = d)
   \<and> audit_date_mismatches fetch issues = List.map_filter (audit_item fetch) issues
   \<and> (\<forall>pre post. (\<forall>x \<in> set pre. \<not> is_digit x) \<and> i_identifier e = ''01.20.12_Thou''
          \<and> i_title e = pre @ ''on 01.12.12'' @ post \<longrightarrow>
        (\<exists>m. audit_item fetch e = Some m \<and> m_identifier_date m = ''2012-01-20''
            \<and> m_title_date m = ''2012-01-12''))"
proof -
  have 1: "\<forall>m. audit_item fetch e = Some m \<longrightarrow>
         m_identifier m = i_identifier e \<and> m_title m = i_title e
         \<and> parse_date_from_identifier (i_identifier e) = Some (m_identifier_date m)
         \<and> audit_parse_date_from_title (i_title e) = Some (m_title_date m)
         \<and> m_current_archive_date m = current_date_of (fetch (i_identifier e))"
    using audit_item_fields by blast
  have 2: "\<forall>md d. md ''date'' = Some d \<longrightarrow> current_date_of (Some md) = d"
    using stored_date_carried by blast
  have 3: "\<forall>pre post. (\<forall>x \<in> set pre. \<not> is_digit x) \<and> i_identifier e = ''01.20.12_Thou''
          \<and> i_title e = pre @ ''on 01.12.12'' @ post \<longrightarrow>
        (\<exists>m. audit_item fetch e = Some m \<and> m_identifier_date m = ''2012-01-20''
            \<and> m_title_date m = ''2012-01-12'')"
    using thou_mismatch by blast
  show ?thesis
    by (intro conjI) (rule audit_item_iff 1 2 3 audit_date_mismatches_def)+
qed

theorem C7_auditor_witness:
  "audit_item (\<lambda>i. Some [''date'' \<mapsto> ''2012-01-20T00:00:00Z''])
      \<lparr>i_identifier = ''01.20.12_Thou'', i_title = ''Thou @ The Che Cafe on 01.12.12'',
        i_current = \<lparr>c_band = None, c_venue = None, c_date = Some ''2012-01-20T00:00:00Z''\<rparr>,
        i_issues = [missing_band], i_suggestions = [''band'' \<mapsto> ''Thou'']\<rparr>
    = Some \<lparr>m_identifier = ''01.20.12_Thou'', m_title = ''Thou @ The Che Cafe on 01.12.12'',
             m_identifier_date = ''2012-01-20'', m_title_date = ''2012-01-12'',
             m_current_archive_date = ''2012-01-20T00:00:00Z''\<rparr>"
proof -
  define e where "e = \<lparr>i_identifier = ''01.20.12_Thou'', i_title = ''Thou @ The Che Cafe on 01.12.12'',
        i_current = \<lparr>c_band = None, c_venue = None, c_date = Some ''2012-01-20T00:00:00Z''\<rparr>,
        i_issues = [missing_band], i_suggestions = [''band'' \<mapsto> ''Thou'']\<rparr>"
  define fetch :: "string \<Rightarrow> (string \<rightharpoonup> string) option"
    where "fetch = (\<lambda>i. Some [''date'' \<mapsto> ''2012-01-20T00:00:00Z''])"
  note t = C7_auditor[of fetch e "[]"]
  have pre: "\<forall>x \<in> set ''Thou @ The Che Cafe ''. \<not> is_digit x" by (simp add: is_digit_def)
  have ti: "i_title e = ''Thou @ The Che Cafe '' @ ''on 01.12.12'' @ []" by (simp add: e_def)
  have id: "i_identifier e = ''01.20.12_Thou''" by (simp add: e_def)
  have "\<exists>m. audit_item fetch e = Some m \<and> m_identifier_date m = ''2012-01-20''
            \<and> m_title_date m = ''2012-01-12''"
    by (rule t[THEN conjunct2, THEN conjunct2, THEN conjunct2, THEN conjunct2, rule_format,
            of "''Thou @ The Che Cafe ''" "[]"])
       (intro conjI pre id ti)
  then obtain m where m: "audit_item fetch e = Some m" "m_identifier_date m = ''2012-01-20''"
    "m_title_date m = ''2012-01-12''" by blast
  from t[THEN conjunct2, THEN conjunct1, rule_format, OF m(1)]
  have f: "m_identifier m = i_identifier e" "m_title m = i_title e"
    "m_current_archive_date m = current_date_of (fetch (i_identifier e))" by simp_all
  have "current_date_of (Some [''date'' \<mapsto> ''2012-01-20T00:00:00Z'']) = ''2012-01-20T00:00:00Z''"
    by (rule t[THEN conjunct2, THEN conjunct2, THEN conjunct1, rule_format]) simp
  with f have c: "m_current_archive_date m = ''2012-01-20T00:00:00Z''" by (simp add: fetch_def)
  have "m = \<lparr>m_identifier = ''01.20.12_Thou'', m_title = ''Thou @ The Che Cafe on 01.12.12'',
             m_identifier_date = ''2012-01-20'', m_title_date = ''2012-01-12'',
             m_current_archive_date = ''2012-01-20T00:00:00Z''\<rparr>"
    using m(2,3) f(1,2) c by (cases m) (simp add: e_def)
  with m(1) show ?thesis unfolding e_def fetch_def by simp
qed

text \<open>
  The title \<open>Thou @ The Che Cafe 01.12.12\<close> contains \<open>01.12.12\<close>, but not after \<open>on\<close>: no
  title date is found and no mismatch is emitted.
\<close>

theorem C7_counterexample:
  "parse_date_from_identifier ''01.20.12_Thou'' = Some ''2012-01-20''
   \<and> audit_parse_date_from_title (''Thou @ The Che Cafe '' @ ''01.12.12'') = None
   \<and> audit_item (\<lambda>i. None)
        \<lparr>i_identifier = ''01.20.12_Thou'', i_title = ''Thou @ The Che Cafe '' @ ''01.12.12'',
          i_current = \<lparr>c_band = None, c_venue = None, c_date = None\<rparr>,
          i_issues = [missing_band], i_suggestions = [''band'' \<mapsto> ''Thou'']\<rparr> = None"
proof -
  have 1: "parse_date_from_identifier ''01.20.12_Thou'' = Some ''2012-01-20''" by code_simp
  have 2: "audit_parse_date_from_title ''Thou @ The Che Cafe 01.12.12'' = None" by code_simp
  from 1 2 show ?thesis by (simp add: audit_item_def truthy_def)
qed

section \<open>Applying the fixes\<close>

lemma apply_step_announced:
  "announced (apply_step update st e) = announced st @ [i_identifier e]"
  by (simp add: apply_step_def Let_def split: prod.splits outcome.splits)

lemma apply_step_counts:
  "success_count (apply_step update st e) + error_count (apply_step update st e)
     = success_count st + error_count st + (if metadata_updates_of (i_suggestions e) \<noteq> [] then 1 else 0)"
  by (simp add: apply_step_def Let_def split: prod.splits outcome.splits)

lemma apply_step_failed:
  assumes "metadata_updates_of (i_suggestions e) \<noteq> []"
    and "fst (update (world st) (i_identifier e) (metadata_updates_of (i_suggestions e))) = Raised x
         \<or> fst (update (world st) (i_identifier e) (metadata_updates_of (i_suggestions e))) = Returned False"
  shows "error_count (apply_step update st e) = error_count st + 1"
    and "success_count (apply_step update st e) = success_count st"
  using assms by (auto simp: apply_step_def Let_def split: prod.splits outcome.splits)

lemma apply_step_succeeded:
  assumes "metadata_updates_of (i_suggestions e) \<noteq> []"
    and "fst (update (world st) (i_identifier e) (metadata_updates_of (i_suggestions e))) = Returned True"
  shows "error_count (apply_step update st e) = error_count st"
    and "success_count (apply_step update st e) = success_count st + 1"
  using assms by (auto simp: apply_step_def Let_def split: prod.splits outcome.splits)

lemma run_announced:
  "announced (foldl (apply_step update) st issues) = announced st @ map i_identifier issues"
  by (induction issues arbitrary: st) (simp_all add: apply_step_announced)

lemma run_counts:
  "success_count (foldl (apply_step update) st issues) + error_count (foldl (apply_step update) st issues)
     = success_count st + error_count st
       + length (filter (\<lambda>e. metadata_updates_of (i_suggestions e) \<noteq> []) issues)"
proof (induction issues arbitrary: st)
  case Nil
  then show ?case by simp
next
  case (Cons e es)
  show ?case
    unfolding foldl_Cons Cons.IH[of "apply_step update st e"] apply_step_counts by simp
qed

lemma run_continues:
  "apply_all_fixes update w (xs @ e # ys)
     = foldl (apply_step update) (apply_step update (apply_all_fixes update w xs) e) ys"
  by (simp add: apply_all_fixes_def)

text \<open>
  C9. The loop of \<open>apply_all_fixes\<close> reaches every item of the batch, in order, whatever the
  updates do: the identifiers announced are those of the whole list. An update that raises
  an exception or returns failure adds one to the failure count and nothing to the success
  count, and the loop goes on with the items after it. The two counts returned add up to
  the number of items that had something to update.
\<close>

theorem C9_failure_isolation:
  "announced (apply_all_fixes update w issues) = map i_identifier issues
   \<and> success_count (apply_all_fixes update w issues) + error_count (apply_all_fixes update w issues)
       = length (filter (\<lambda>e. metadata_updates_of (i_suggestions e) \<noteq> []) issues)
   \<and> (\<forall>st e x. metadata_updates_of (i_suggestions e) \<noteq> []
         \<and> (fst (update (world st) (i_identifier e) (metadata_updates_of (i_suggestions e))) = Raised x
            \<or> fst (update (world st) (i_identifier e) (metadata_updates_of (i_suggestions e))) = Returned False)
        \<longrightarrow> error_count (apply_step update st e) = error_count st + 1
            \<and> success_count (apply_step update st e) = success_count st)
   \<and> (\<forall>st e. metadata_updates_of (i_suggestions e) \<noteq> []
         \<and> fst (update (world st) (i_identifier e) (metadata_updates_of (i_suggestions e))) = Returned True
        \<longrightarrow> error_count (apply_step update st e) = error_count st
            \<and> success_count (apply_step update st e) = success_count st + 1)
   \<and> (\<forall>xs e ys. issues = xs @ e # ys \<longrightarrow>
         apply_all_fixes update w issues
           = foldl (apply_step update) (apply_step update (apply_all_fixes update w xs) e) ys
         \<and> announced (apply_all_fixes update w issues)
           = announced (apply_step update (apply_all_fixes update w xs) e) @ map i_identifier ys)"
proof -
  have 1: "announced (apply_all_fixes update w issues) = map i_identifier issues"
    by (simp add: apply_all_fixes_def run_announced)
  have 2: "success_count (apply_all_fixes update w issues) + error_count (apply_all_fixes update w issues)
       = length (filter (\<lambda>e. metadata_updates_of (i_suggestions e) \<noteq> []) issues)"
    by (simp add: apply_all_fixes_def run_counts)
  have 3: "\<forall>st e x. metadata_updates_of (i_suggestions e) \<noteq> []
         \<and> (fst (update (world st) (i_identifier e) (metadata_updates_of (i_suggestions e))) = Raised x
            \<or> fst (update (world st) (i_identifier e) (metadata_updates_of (i_suggestions e))) = Returned False)
        \<longrightarrow> error_count (apply_step update st e) = error_count st + 1
            \<and> success_count (apply_step update st e) = success_count st"
    using apply_step_failed[of _ update] by blast
  have 4: "\<forall>st e. metadata_updates_of (i_suggestions e) \<noteq> []
         \<and> fst (update (world st) (i_identifier e) (metadata_updates_of (i_suggestions e))) = Returned True
        \<longrightarrow> error_count (apply_step update st e) = error_count st
            \<and> success_count (apply_step update st e) = success_count st + 1"
    using apply_step_succeeded[of _ update] by blast
  have 5: "\<forall>xs e ys. issues = xs @ e # ys \<longrightarrow>
         apply_all_fixes update w issues
           = foldl (apply_step update) (apply_step update (apply_all_fixes update w xs) e) ys
         \<and> announced (apply_all_fixes update w issues)
           = announced (apply_step update (apply_all_fixes update w xs) e) @ map i_identifier ys"
    by (simp add: run_continues run_announced)
  show ?thesis by (intro conjI) (rule 1 2 3 4 5)+
qed


theorem C9_failure_isolation_witness:
  "apply_all_fixes (\<lambda>w i u. (if i = ''b'' then Raised ''HTTP 503'' else Returned (i \<noteq> ''c''), Suc w)) (0::nat)
     [\<lparr>i_identifier = ''a'', i_title = ''t'', i_current = \<lparr>c_band = None, c_venue = None, c_date = None\<rparr>,
        i_issues = [missing_band], i_suggestions = [''band'' \<mapsto> ''Thou'']\<rparr>,
      \<lparr>i_identifier = ''b'', i_title = ''t'', i_current = \<lparr>c_band = None, c_venue = None, c_date = None\<rparr>,
        i_issues = [missing_band], i_suggestions = [''band'' \<mapsto> ''Thou'']\<rparr>,
      \<lparr>i_identifier = ''c'', i_title = ''t'', i_current = \<lparr>c_band = None, c_venue = None, c_date = None\<rparr>,
        i_issues = [missing_band], i_suggestions = [''band'' \<mapsto> ''Thou'']\<rparr>,
      \<lparr>i_identifier = ''d'', i_title = ''t'', i_current = \<lparr>c_band = None, c_venue = None, c_date = None\<rparr>,
        i_issues = [missing_band], i_suggestions = [''band'' \<mapsto> ''Thou'']\<rparr>]
   = \<lparr>success_count = 2, error_count = 2, announced = [''a'', ''b'', ''c'', ''d''], world = 4\<rparr>"
proof -
  define U :: "nat \<Rightarrow> string \<Rightarrow> (string \<times> string) list \<Rightarrow> outcome \<times> nat"
    where "U = (\<lambda>w i u. (if i = ''b'' then Raised ''HTTP 503'' else Returned (i \<noteq> ''c''), Suc w))"
  define E where "E = (\<lambda>i. \<lparr>i_identifier = i, i_title = ''t'',
        i_current = \<lparr>c_band = None, c_venue = None, c_date = None\<rparr>,
        i_issues = [missing_band], i_suggestions = [''band'' \<mapsto> ''Thou'']\<rparr>)"
  let ?issues = "[E ''a'', E ''b'', E ''c'', E ''d'']"
  let ?r = "apply_all_fixes U 0 ?issues"
  note t = C9_failure_isolation[of U 0 ?issues]
  have mu: "\<And>i. metadata_updates_of (i_suggestions (E i)) = [(''band'', ''Thou'')]"
    by (simp add: E_def metadata_updates_of_def)
  have id: "\<And>i. i_identifier (E i) = i" by (simp add: E_def)
  have s0: "apply_all_fixes U 0 [] = \<lparr>success_count = 0, error_count = 0, announced = [], world = 0\<rparr>"
    by (simp add: apply_all_fixes_def)
  have a1: "error_count (apply_step U (apply_all_fixes U 0 []) (E ''a'')) = error_count (apply_all_fixes U 0 [])
          \<and> success_count (apply_step U (apply_all_fixes U 0 []) (E ''a''))
              = success_count (apply_all_fixes U 0 []) + 1"
    by (rule t[THEN conjunct2, THEN conjunct2, THEN conjunct2, THEN conjunct1, rule_format])
       (simp add: mu id U_def)
  have b1: "error_count (apply_step U (apply_all_fixes U 0 [E ''a'']) (E ''b''))
              = error_count (apply_all_fixes U 0 [E ''a'']) + 1
          \<and> success_count (apply_step U (apply_all_fixes U 0 [E ''a'']) (E ''b''))
              = success_count (apply_all_fixes U 0 [E ''a''])"
    by (rule t[THEN conjunct2, THEN conjunct2, THEN conjunct1, rule_format, of _ _ "''HTTP 503''"])
       (simp add: mu id U_def)
  have c1: "?r = foldl (apply_step U) (apply_step U (apply_all_fixes U 0 [E ''a'']) (E ''b'')) [E ''c'', E ''d'']
          \<and> announced ?r = announced (apply_step U (apply_all_fixes U 0 [E ''a'']) (E ''b''))
                @ map i_identifier [E ''c'', E ''d'']"
    by (rule t[THEN conjunct2, THEN conjunct2, THEN conjunct2, THEN conjunct2, rule_format]) simp
  have an: "announced ?r = [''a'', ''b'', ''c'', ''d'']"
    using t[THEN conjunct1] by (simp add: id)
  have sum: "success_count ?r + error_count ?r = 4"
    using t[THEN conjunct2, THEN conjunct1] by (simp add: mu)
  have full: "?r = \<lparr>success_count = 2, error_count = 2, announced = [''a'', ''b'', ''c'', ''d''], world = 4\<rparr>"
    by (simp add: apply_all_fixes_def apply_step_def mu id U_def Let_def)
  from full a1 b1 c1 an sum show ?thesis unfolding U_def E_def by simp
qed

section \<open>The canonical date of every recognised shape\<close>

lemma slash_form:
  assumes a: "digit_str 1 2 a" and b: "digit_str 1 2 b" and y: "digit_str 2 2 y \<or> digit_str 4 4 y"
    and e: "e = [] \<or> e = [CHR 0x0A]"
  shows "re_match False mmddyy_re (a @ ''/'' @ b @ ''/'' @ y @ e) \<noteq> None
         \<or> re_match False mmddyyyy_re (a @ ''/'' @ b @ ''/'' @ y @ e) \<noteq> None"
    and "standardize_date (a @ ''/'' @ b @ ''/'' @ y @ e) = full_year y @ ''-'' @ zfill 2 a @ ''-'' @ zfill 2 b"
proof -
  from y show "re_match False mmddyy_re (a @ ''/'' @ b @ ''/'' @ y @ e) \<noteq> None
         \<or> re_match False mmddyyyy_re (a @ ''/'' @ b @ ''/'' @ y @ e) \<noteq> None"
  proof
    assume "digit_str 2 2 y"
    then have "re_match False mmddyy_re (a @ ''/'' @ b @ ''/'' @ y @ e) \<noteq> None"
      using digit_str_1_2D[OF a] digit_str_1_2D[OF b] e
      by (auto simp: mmddyy_re_def pat_defs dest!: digit_str_2_2D)
    then show ?thesis ..
  next
    assume "digit_str 4 4 y"
    then have "re_match False mmddyyyy_re (a @ ''/'' @ b @ ''/'' @ y @ e) \<noteq> None"
      using digit_str_1_2D[OF a] digit_str_1_2D[OF b] e
      by (auto simp: mmddyyyy_re_def pat_defs dest!: digit_str_4_4D)
    then show ?thesis ..
  qed
  from y show "standardize_date (a @ ''/'' @ b @ ''/'' @ y @ e)
      = full_year y @ ''-'' @ zfill 2 a @ ''-'' @ zfill 2 b"
  proof
    assume "digit_str 2 2 y"
    then show ?thesis
      using digit_str_1_2D[OF a] digit_str_1_2D[OF b] e
      by (auto simp: standardize_date_def mmddyy_re_def pat_defs zfill_def full_year_def
          dest!: digit_str_2_2D)
  next
    assume "digit_str 4 4 y"
    then show ?thesis
      using digit_str_1_2D[OF a] digit_str_1_2D[OF b] e
      by (auto simp: standardize_date_def mmddyy_re_def mmddyyyy_re_def pat_defs zfill_def full_year_def
          dest!: digit_str_4_4D)
  qed
qed

lemma dot_form:
  assumes a: "digit_str 1 2 a" and b: "digit_str 1 2 b" and y: "digit_str 2 2 y \<or> digit_str 4 4 y"
    and e: "e = [] \<or> e = [CHR 0x0A]"
  shows "re_match False ddmmyy_re (a @ ''.'' @ b @ ''.'' @ y @ e) \<noteq> None
         \<or> re_match False ddmmyyyy_re (a @ ''.'' @ b @ ''.'' @ y @ e) \<noteq> None"
    and "standardize_date (a @ ''.'' @ b @ ''.'' @ y @ e) = full_year y @ ''-'' @ zfill 2 b @ ''-'' @ zfill 2 a"
proof -
  from y show "re_match False ddmmyy_re (a @ ''.'' @ b @ ''.'' @ y @ e) \<noteq> None
         \<or> re_match False ddmmyyyy_re (a @ ''.'' @ b @ ''.'' @ y @ e) \<noteq> None"
  proof
    assume "digit_str 2 2 y"
    then have "re_match False ddmmyy_re (a @ ''.'' @ b @ ''.'' @ y @ e) \<noteq> None"
      using digit_str_1_2D[OF a] digit_str_1_2D[OF b] e
      by (auto simp: ddmmyy_re_def pat_defs dest!: digit_str_2_2D)
    then show ?thesis ..
  next
    assume "digit_str 4 4 y"
    then have "re_match False ddmmyyyy_re (a @ ''.'' @ b @ ''.'' @ y @ e) \<noteq> None"
      using digit_str_1_2D[OF a] digit_str_1_2D[OF b] e
      by (auto simp: ddmmyyyy_re_def pat_defs dest!: digit_str_4_4D)
    then show ?thesis ..
  qed
  from y show "standardize_date (a @ ''.'' @ b @ ''.'' @ y @ e)
      = full_year y @ ''-'' @ zfill 2 b @ ''-'' @ zfill 2 a"
  proof
    assume "digit_str 2 2 y"
    then show ?thesis
      using digit_str_1_2D[OF a] digit_str_1_2D[OF b] e
      by (auto simp: standardize_date_def mmddyy_re_def mmddyyyy_re_def ddmmyy_re_def pat_defs
          zfill_def full_year_def dest!: digit_str_2_2D)
  next
    assume "digit_str 4 4 y"
    then show ?thesis
      using digit_str_1_2D[OF a] digit_str_1_2D[OF b] e
      by (auto simp: standardize_date_def mmddyy_re_def mmddyyyy_re_def ddmmyy_re_def ddmmyyyy_re_def
          pat_defs zfill_def full_year_def dest!: digit_str_4_4D)
  qed
qed

lemma iso_form:
  assumes y: "digit_str 4 4 y" and m: "digit_str 2 2 m" and d: "digit_str 2 2 d"
  shows "re_match False iso_date_re (y @ ''-'' @ m @ ''-'' @ d @ ''T'' @ rest) \<noteq> None"
    and "standardize_date (y @ ''-'' @ m @ ''-'' @ d @ ''T'' @ rest) = y @ ''-'' @ m @ ''-'' @ d"
  using digit_str_4_4D[OF y] digit_str_2_2D[OF m] digit_str_2_2D[OF d]
  by (auto simp: standardize_date_def mmddyy_re_def mmddyyyy_re_def ddmmyy_re_def ddmmyyyy_re_def
      iso_date_re_def pat_defs)

lemma ymd_form:
  assumes y: "digit_str 4 4 y" and m: "digit_str 2 2 m" and d: "digit_str 2 2 d"
  shows "re_match False yyyymmdd_re (y @ ''-'' @ m @ ''-'' @ d) \<noteq> None"
    and "standardize_date (y @ ''-'' @ m @ ''-'' @ d) = y @ ''-'' @ m @ ''-'' @ d"
  using digit_str_4_4D[OF y] digit_str_2_2D[OF m] digit_str_2_2D[OF d]
  by (auto simp: standardize_date_def mmddyy_re_def mmddyyyy_re_def ddmmyy_re_def ddmmyyyy_re_def
      iso_date_re_def yyyymmdd_re_def pat_defs)

lemma year_form:
  assumes y: "digit_str 4 4 y"
  shows "re_match False yyyy_re y \<noteq> None"
    and "standardize_date y = y @ ''-01-01''"
  using digit_str_4_4D[OF y]
  by (auto simp: standardize_date_def mmddyy_re_def mmddyyyy_re_def ddmmyy_re_def ddmmyyyy_re_def
      iso_date_re_def yyyymmdd_re_def yyyy_re_def pat_defs)

lemma three_fields_text:
  assumes "re_match False (cat [Bol, Group (digits 1 2), chr c, Group (digits 1 2), chr c,
                                Group (digits k k), Eol]) s = Some g"
  shows "\<exists>a b y e. s = a @ [c] @ b @ [c] @ y @ e \<and> digit_str 1 2 a \<and> digit_str 1 2 b \<and> digit_str k k y
           \<and> (e = [] \<or> e = [CHR 0x0A])"
proof -
  from re_match_SomeD[OF assms] obtain p' r' where
    "(p', r', g) \<in> set (mt False (cat [Bol, Group (digits 1 2), chr c, Group (digits 1 2), chr c,
                                Group (digits k k), Eol]) ([], s, []))"
    by blast
  then show ?thesis
    unfolding cat_def foldr.simps o_apply
    apply (simp only: mt_iffs)
    apply (auto dest!: mt_digitsD)
    done
qed

lemma iso_text:
  assumes "re_match False iso_date_re s = Some g"
  shows "\<exists>y m d rest. s = y @ ''-'' @ m @ ''-'' @ d @ ''T'' @ rest
           \<and> digit_str 4 4 y \<and> digit_str 2 2 m \<and> digit_str 2 2 d"
proof -
  from re_match_SomeD[OF assms] obtain p' r' where
    "(p', r', g) \<in> set (mt False iso_date_re ([], s, []))"
    by blast
  then show ?thesis
    unfolding iso_date_re_def cat_def foldr.simps o_apply
    apply (simp only: mt_iffs)
    apply (auto dest!: mt_digitsD)
    done
qed

text \<open>The texts that \<open>standardize_date\<close> recognises.\<close>

lemma recognized_text:
  assumes "recognized s"
  shows "(\<exists>a b y e. s = a @ ''/'' @ b @ ''/'' @ y @ e \<and> digit_str 1 2 a \<and> digit_str 1 2 b
              \<and> (digit_str 2 2 y \<or> digit_str 4 4 y) \<and> (e = [] \<or> e = [CHR 0x0A]))
       \<or> (\<exists>a b y e. s = a @ ''.'' @ b @ ''.'' @ y @ e \<and> digit_str 1 2 a \<and> digit_str 1 2 b
              \<and> (digit_str 2 2 y \<or> digit_str 4 4 y) \<and> (e = [] \<or> e = [CHR 0x0A]))
       \<or> (\<exists>y m d rest. s = y @ ''-'' @ m @ ''-'' @ d @ ''T'' @ rest
              \<and> digit_str 4 4 y \<and> digit_str 2 2 m \<and> digit_str 2 2 d)
       \<or> (\<exists>y m d e. s = y @ ''-'' @ m @ ''-'' @ d @ e
              \<and> digit_str 4 4 y \<and> digit_str 2 2 m \<and> digit_str 2 2 d \<and> (e = [] \<or> e = [CHR 0x0A]))
       \<or> (\<exists>y e. s = y @ e \<and> digit_str 4 4 y \<and> (e = [] \<or> e = [CHR 0x0A]))"
proof -
  from assms consider
    (a) g where "re_match False mmddyy_re s = Some g"
    | (b) g where "re_match False mmddyyyy_re s = Some g"
    | (c) g where "re_match False ddmmyy_re s = Some g"
    | (d) g where "re_match False ddmmyyyy_re s = Some g"
    | (e) g where "re_match False iso_date_re s = Some g"
    | (f) g where "re_match False yyyymmdd_re s = Some g"
    | (g) g where "re_match False yyyy_re s = Some g"
    unfolding recognized_def by blast
  then show ?thesis
  proof cases
    case a
    from three_fields_text[OF a[unfolded mmddyy_re_def]] obtain x b y e where
      "s = x @ ''/'' @ b @ ''/'' @ y @ e" "digit_str 1 2 x" "digit_str 1 2 b" "digit_str 2 2 y"
      "e = [] \<or> e = [CHR 0x0A]" by blast
    then have "\<exists>a b y e. s = a @ ''/'' @ b @ ''/'' @ y @ e \<and> digit_str 1 2 a \<and> digit_str 1 2 b
              \<and> (digit_str 2 2 y \<or> digit_str 4 4 y) \<and> (e = [] \<or> e = [CHR 0x0A])"
      by (intro exI[of _ x] exI[of _ b] exI[of _ y] exI[of _ e]) (simp only: simp_thms)
    then show ?thesis by (rule disjI1)
  next
    case b
    from three_fields_text[OF b[unfolded mmddyyyy_re_def]] obtain x c y e where
      "s = x @ ''/'' @ c @ ''/'' @ y @ e" "digit_str 1 2 x" "digit_str 1 2 c" "digit_str 4 4 y"
      "e = [] \<or> e = [CHR 0x0A]" by blast
    then have "\<exists>a b y e. s = a @ ''/'' @ b @ ''/'' @ y @ e \<and> digit_str 1 2 a \<and> digit_str 1 2 b
              \<and> (digit_str 2 2 y \<or> digit_str 4 4 y) \<and> (e = [] \<or> e = [CHR 0x0A])"
      by (intro exI[of _ x] exI[of _ c] exI[of _ y] exI[of _ e]) (simp only: simp_thms)
    then show ?thesis by (rule disjI1)
  next
    case c
    from three_fields_text[OF c[unfolded ddmmyy_re_def]] obtain x b y e where
      "s = x @ ''.'' @ b @ ''.'' @ y @ e" "digit_str 1 2 x" "digit_str 1 2 b" "digit_str 2 2 y"
      "e = [] \<or> e = [CHR 0x0A]" by blast
    then have "\<exists>a b y e. s = a @ ''.'' @ b @ ''.'' @ y @ e \<and> digit_str 1 2 a \<and> digit_str 1 2 b
              \<and> (digit_str 2 2 y \<or> digit_str 4 4 y) \<and> (e = [] \<or> e = [CHR 0x0A])"
      by (intro exI[of _ x] exI[of _ b] exI[of _ y] exI[of _ e]) (simp only: simp_thms)
    then show ?thesis by (rule disjI2[OF disjI1])
  next
    case d
    from three_fields_text[OF d[unfolded ddmmyyyy_re_def]] obtain x b y e where
      "s = x @ ''.'' @ b @ ''.'' @ y @ e" "digit_str 1 2 x" "digit_str 1 2 b" "digit_str 4 4 y"
      "e = [] \<or> e = [CHR 0x0A]" by blast
    then have "\<exists>a b y e. s = a @ ''.'' @ b @ ''.'' @ y @ e \<and> digit_str 1 2 a \<and> digit_str 1 2 b
              \<and> (digit_str 2 2 y \<or> digit_str 4 4 y) \<and> (e = [] \<or> e = [CHR 0x0A])"
      by (intro exI[of _ x] exI[of _ b] exI[of _ y] exI[of _ e]) (simp only: simp_thms)
    then show ?thesis by (rule disjI2[OF disjI1])
  next
    case e
    from iso_text[OF e] show ?thesis by (rule disjI2[OF disjI2[OF disjI1]])
  next
    case f
    from yyyymmdd_inv[OF f] show ?thesis by (rule disjI2[OF disjI2[OF disjI2[OF disjI1]]])
  next
    case g
    from yyyy_inv[OF g] show ?thesis by (rule disjI2[OF disjI2[OF disjI2[OF disjI2]]])
  qed
qed

lemma slash_fields:
  assumes "digit_str 1 2 a" "digit_str 1 2 b" "digit_str 2 2 y \<or> digit_str 4 4 y"
    "e = [] \<or> e = [CHR 0x0A]"
  shows "recognized (a @ ''/'' @ b @ ''/'' @ y @ e)
     \<and> standardize_date (a @ ''/'' @ b @ ''/'' @ y @ e) = full_year y @ ''-'' @ zfill 2 a @ ''-'' @ zfill 2 b
     \<and> month_of (standardize_date (a @ ''/'' @ b @ ''/'' @ y @ e)) = int_of_digits a
     \<and> day_of (standardize_date (a @ ''/'' @ b @ ''/'' @ y @ e)) = int_of_digits b"
proof -
  note f = slash_form[OF assms]
  note ly = full_year_length[OF assms(3)]
  note za = zfill_digits[OF assms(1)] and zb = zfill_digits[OF assms(2)]
  from f(1) have "recognized (a @ ''/'' @ b @ ''/'' @ y @ e)" unfolding recognized_def by blast
  moreover have "month_of (standardize_date (a @ ''/'' @ b @ ''/'' @ y @ e)) = int_of_digits a"
    "day_of (standardize_date (a @ ''/'' @ b @ ''/'' @ y @ e)) = int_of_digits b"
    unfolding f(2) using fields_of_assembled[OF ly za(1) zb(1)] za(2) zb(2) by simp_all
  ultimately show ?thesis using f(2) by blast
qed

lemma dot_fields:
  assumes "digit_str 1 2 a" "digit_str 1 2 b" "digit_str 2 2 y \<or> digit_str 4 4 y"
    "e = [] \<or> e = [CHR 0x0A]"
  shows "recognized (a @ ''.'' @ b @ ''.'' @ y @ e)
     \<and> standardize_date (a @ ''.'' @ b @ ''.'' @ y @ e) = full_year y @ ''-'' @ zfill 2 b @ ''-'' @ zfill 2 a
     \<and> month_of (standardize_date (a @ ''.'' @ b @ ''.'' @ y @ e)) = int_of_digits b
     \<and> day_of (standardize_date (a @ ''.'' @ b @ ''.'' @ y @ e)) = int_of_digits a"
proof -
  note f = dot_form[OF assms]
  note ly = full_year_length[OF assms(3)]
  note za = zfill_digits[OF assms(1)] and zb = zfill_digits[OF assms(2)]
  from f(1) have "recognized (a @ ''.'' @ b @ ''.'' @ y @ e)" unfolding recognized_def by blast
  moreover have "month_of (standardize_date (a @ ''.'' @ b @ ''.'' @ y @ e)) = int_of_digits b"
    "day_of (standardize_date (a @ ''.'' @ b @ ''.'' @ y @ e)) = int_of_digits a"
    unfolding f(2) using fields_of_assembled[OF ly zb(1) za(1)] za(2) zb(2) by simp_all
  ultimately show ?thesis using f(2) by blast
qed

lemma iso_fields:
  assumes "digit_str 4 4 y" "digit_str 2 2 m" "digit_str 2 2 d"
  shows "recognized (y @ ''-'' @ m @ ''-'' @ d @ ''T'' @ rest)
     \<and> standardize_date (y @ ''-'' @ m @ ''-'' @ d @ ''T'' @ rest) = y @ ''-'' @ m @ ''-'' @ d
     \<and> month_of (standardize_date (y @ ''-'' @ m @ ''-'' @ d @ ''T'' @ rest)) = int_of_digits m
     \<and> day_of (standardize_date (y @ ''-'' @ m @ ''-'' @ d @ ''T'' @ rest)) = int_of_digits d"
proof -
  note f = iso_form[OF assms, of rest]
  note l = digit_str_length[OF assms(1)] digit_str_length[OF assms(2)] digit_str_length[OF assms(3)]
  from f(1) have "recognized (y @ ''-'' @ m @ ''-'' @ d @ ''T'' @ rest)" unfolding recognized_def by blast
  moreover have "month_of (standardize_date (y @ ''-'' @ m @ ''-'' @ d @ ''T'' @ rest)) = int_of_digits m"
    "day_of (standardize_date (y @ ''-'' @ m @ ''-'' @ d @ ''T'' @ rest)) = int_of_digits d"
    unfolding f(2) using fields_of_assembled[OF l] by simp_all
  ultimately show ?thesis using f(2) by blast
qed

lemma ymd_fields:
  assumes "digit_str 4 4 y" "digit_str 2 2 m" "digit_str 2 2 d"
  shows "recognized (y @ ''-'' @ m @ ''-'' @ d)
     \<and> standardize_date (y @ ''-'' @ m @ ''-'' @ d) = y @ ''-'' @ m @ ''-'' @ d
     \<and> month_of (standardize_date (y @ ''-'' @ m @ ''-'' @ d)) = int_of_digits m
     \<and> day_of (standardize_date (y @ ''-'' @ m @ ''-'' @ d)) = int_of_digits d"
proof -
  note f = ymd_form[OF assms]
  note l = digit_str_length[OF assms(1)] digit_str_length[OF assms(2)] digit_str_length[OF assms(3)]
  from f(1) have "recognized (y @ ''-'' @ m @ ''-'' @ d)" unfolding recognized_def by blast
  moreover have "month_of (standardize_date (y @ ''-'' @ m @ ''-'' @ d)) = int_of_digits m"
    "day_of (standardize_date (y @ ''-'' @ m @ ''-'' @ d)) = int_of_digits d"
    unfolding f(2) using fields_of_assembled[OF l] by simp_all
  ultimately show ?thesis using f(2) by blast
qed

lemma year_fields:
  assumes "digit_str 4 4 y"
  shows "recognized y \<and> standardize_date y = y @ ''-01-01''
     \<and> month_of (standardize_date y) = 1 \<and> day_of (standardize_date y) = 1"
proof -
  note f = year_form[OF assms]
  from f(1) have "recognized y" unfolding recognized_def by blast
  moreover have "month_of (standardize_date y) = 1" "day_of (standardize_date y) = 1"
    unfolding f(2) using fields_of_assembled(2,3)[of y "''01''" "''01''"] digit_str_length[OF assms]
    by (simp_all add: int_of_digits_def digit_val_def)
  ultimately show ?thesis using f(2) by blast
qed

text \<open>Every month and day from 00 to 99 comes out of the canonicalizer.\<close>

lemma any_month_and_day:
  assumes "m < 100" "d < 100"
  shows "\<exists>s. recognized s \<and> canonical_shape (standardize_date s)
           \<and> month_of (standardize_date s) = m \<and> day_of (standardize_date s) = d"
proof -
  let ?s = "fmt_d 2 m @ ''/'' @ fmt_d 2 d @ ''/'' @ ''2014''"
  note pm = fmt_d_props[OF dec_length_2[OF assms(1)]] and pd = fmt_d_props[OF dec_length_2[OF assms(2)]]
  have a: "digit_str 1 2 (fmt_d 2 m)" and b: "digit_str 1 2 (fmt_d 2 d)"
    using pm pd by (simp_all add: digit_str_def)
  have y: "digit_str 2 2 ''2014'' \<or> digit_str 4 4 ''2014''" by (simp add: digit_str_def is_digit_def)
  have e: "([]::string) = [] \<or> ([]::string) = [CHR 0x0A]" by simp
  note f = slash_fields[OF a b y e, unfolded append_Nil2]
  from f have r: "recognized ?s" by (rule conjunct1)
  from f have mo: "month_of (standardize_date ?s) = int_of_digits (fmt_d 2 m)"
    by (rule conjunct2[THEN conjunct2, THEN conjunct1])
  from f have da: "day_of (standardize_date ?s) = int_of_digits (fmt_d 2 d)"
    by (rule conjunct2[THEN conjunct2, THEN conjunct2])
  have "last ?s = CHR ''4''" by simp
  then have nl: "re_match False yyyymmdd_re ?s \<noteq> None \<or> re_match False yyyy_re ?s \<noteq> None
       \<longrightarrow> last ?s \<noteq> CHR 0x0A"
    by (simp only:) simp
  from std_shape[OF r nl] have sh: "canonical_shape (standardize_date ?s)" .
  from r sh mo[unfolded pm(3)] da[unfolded pd(3)] show ?thesis by blast
qed

text \<open>
  C3 (as amended). The result of the canonicalizer has the textual shape \<open>YYYY-MM-DD\<close>
  (four digits, two digits, two digits) for every input on which one of its patterns
  matches; for the \<open>YYYY-MM-DD\<close> and the bare-year pattern the input must not end in a line
  feed. The recognised inputs are the slashed and the dotted dates (fields of one or two
  digits, year of two or four), the ISO timestamps, the dates \<open>YYYY-MM-DD\<close> and the bare
  years. The month and the day of the result are not checked against any range: for a
  slashed date they are the first and the second field, for a dotted date the second and
  the first, for a timestamp and for \<open>YYYY-MM-DD\<close> the two fields of the input, for a bare
  year 1 and 1; and every month and every day from 0 to 99 is the month and day of the
  result of some recognised input.
\<close>

theorem C3_canonical_shape:
  "(\<forall>s. recognized s
        \<and> (re_match False yyyymmdd_re s \<noteq> None \<or> re_match False yyyy_re s \<noteq> None \<longrightarrow> last s \<noteq> CHR 0x0A)
      \<longrightarrow> canonical_shape (standardize_date s))
   \<and> (\<forall>s. recognized s \<longrightarrow>
        (\<exists>a b y e. s = a @ ''/'' @ b @ ''/'' @ y @ e \<and> digit_str 1 2 a \<and> digit_str 1 2 b
              \<and> (digit_str 2 2 y \<or> digit_str 4 4 y) \<and> (e = [] \<or> e = [CHR 0x0A]))
       \<or> (\<exists>a b y e. s = a @ ''.'' @ b @ ''.'' @ y @ e \<and> digit_str 1 2 a \<and> digit_str 1 2 b
              \<and> (digit_str 2 2 y \<or> digit_str 4 4 y) \<and> (e = [] \<or> e = [CHR 0x0A]))
       \<or> (\<exists>y m d rest. s = y @ ''-'' @ m @ ''-'' @ d @ ''T'' @ rest
              \<and> digit_str 4 4 y \<and> digit_str 2 2 m \<and> digit_str 2 2 d)
       \<or> (\<exists>y m d e. s = y @ ''-'' @ m @ ''-'' @ d @ e
              \<and> digit_str 4 4 y \<and> digit_str 2 2 m \<and> digit_str 2 2 d \<and> (e = [] \<or> e = [CHR 0x0A]))
       \<or> (\<exists>y e. s = y @ e \<and> digit_str 4 4 y \<and> (e = [] \<or> e = [CHR 0x0A])))
   \<and> (\<forall>a b y e. digit_str 1 2 a \<and> digit_str 1 2 b \<and> (digit_str 2 2 y \<or> digit_str 4 4 y)
          \<and> (e = [] \<or> e = [CHR 0x0A]) \<longrightarrow>
        recognized (a @ ''/'' @ b @ ''/'' @ y @ e)
        \<and> standardize_date (a @ ''/'' @ b @ ''/'' @ y @ e)
            = full_year y @ ''-'' @ zfill 2 a @ ''-'' @ zfill 2 b
        \<and> month_of (standardize_date (a @ ''/'' @ b @ ''/'' @ y @ e)) = int_of_digits a
        \<and> day_of (standardize_date (a @ ''/'' @ b @ ''/'' @ y @ e)) = int_of_digits b)
   \<and> (\<forall>a b y e. digit_str 1 2 a \<and> digit_str 1 2 b \<and> (digit_str 2 2 y \<or> digit_str 4 4 y)
          \<and> (e = [] \<or> e = [CHR 0x0A]) \<longrightarrow>
        recognized (a @ ''.'' @ b @ ''.'' @ y @ e)
        \<and> standardize_date (a @ ''.'' @ b @ ''.'' @ y @ e)
            = full_year y @ ''-'' @ zfill 2 b @ ''-'' @ zfill 2 a
        \<and> month_of (standardize_date (a @ ''.'' @ b @ ''.'' @ y @ e)) = int_of_digits b
        \<and> day_of (standardize_date (a @ ''.'' @ b @ ''.'' @ y @ e)) = int_of_digits a)
   \<and> (\<forall>y m d rest. digit_str 4 4 y \<and> digit_str 2 2 m \<and> digit_str 2 2 d \<longrightarrow>
        recognized (y @ ''-'' @ m @ ''-'' @ d @ ''T'' @ rest)
        \<and> standardize_date (y @ ''-'' @ m @ ''-'' @ d @ ''T'' @ rest) = y @ ''-'' @ m @ ''-'' @ d
        \<and> month_of (standardize_date (y @ ''-'' @ m @ ''-'' @ d @ ''T'' @ rest)) = int_of_digits m
        \<and> day_of (standardize_date (y @ ''-'' @ m @ ''-'' @ d @ ''T'' @ rest)) = int_of_digits d)
   \<and> (\<forall>y m d. digit_str 4 4 y \<and> digit_str 2 2 m \<and> digit_str 2 2 d \<longrightarrow>
        recognized (y @ ''-'' @ m @ ''-'' @ d)
        \<and> standardize_date (y @ ''-'' @ m @ ''-'' @ d) = y @ ''-'' @ m @ ''-'' @ d
        \<and> month_of (standardize_date (y @ ''-'' @ m @ ''-'' @ d)) = int_of_digits m
        \<and> day_of (standardize_date (y @ ''-'' @ m @ ''-'' @ d)) = int_of_digits d)
   \<and> (\<forall>y. digit_str 4 4 y \<longrightarrow>
        recognized y \<and> standardize_date y = y @ ''-01-01''
        \<and> month_of (standardize_date y) = 1 \<and> day_of (standardize_date y) = 1)
   \<and> (\<forall>m d. m < 100 \<and> d < 100 \<longrightarrow>
        (\<exists>s. recognized s \<and> canonical_shape (standardize_date s)
           \<and> month_of (standardize_date s) = m \<and> day_of (standardize_date s) = d))"
proof (intro conjI allI impI)
  fix s
  assume h: "recognized s
        \<and> (re_match False yyyymmdd_re s \<noteq> None \<or> re_match False yyyy_re s \<noteq> None \<longrightarrow> last s \<noteq> CHR 0x0A)"
  show "canonical_shape (standardize_date s)"
    using std_shape[OF h[THEN conjunct1] h[THEN conjunct2]] .
next
  fix s assume "recognized s"
  then show "(\<exists>a b y e. s = a @ ''/'' @ b @ ''/'' @ y @ e \<and> digit_str 1 2 a \<and> digit_str 1 2 b
              \<and> (digit_str 2 2 y \<or> digit_str 4 4 y) \<and> (e = [] \<or> e = [CHR 0x0A]))
       \<or> (\<exists>a b y e. s = a @ ''.'' @ b @ ''.'' @ y @ e \<and> digit_str 1 2 a \<and> digit_str 1 2 b
              \<and> (digit_str 2 2 y \<or> digit_str 4 4 y) \<and> (e = [] \<or> e = [CHR 0x0A]))
       \<or> (\<exists>y m d rest. s = y @ ''-'' @ m @ ''-'' @ d @ ''T'' @ rest
              \<and> digit_str 4 4 y \<and> digit_str 2 2 m \<and> digit_str 2 2 d)
       \<or> (\<exists>y m d e. s = y @ ''-'' @ m @ ''-'' @ d @ e
              \<and> digit_str 4 4 y \<and> digit_str 2 2 m \<and> digit_str 2 2 d \<and> (e = [] \<or> e = [CHR 0x0A]))
       \<or> (\<exists>y e. s = y @ e \<and> digit_str 4 4 y \<and> (e = [] \<or> e = [CHR 0x0A]))"
    by (rule recognized_text)
next
  fix m d :: nat assume h: "m < 100 \<and> d < 100"
  show "\<exists>s. recognized s \<and> canonical_shape (standardize_date s)
           \<and> month_of (standardize_date s) = m \<and> day_of (standardize_date s) = d"
    using any_month_and_day[OF h[THEN conjunct1] h[THEN conjunct2]] .
qed (use slash_fields dot_fields iso_fields ymd_fields year_fields in blast)+


theorem C3_canonical_shape_witness:
  "(recognized ''2016'' \<and> standardize_date ''2016'' = ''2016-01-01''
        \<and> month_of (standardize_date ''2016'') = 1 \<and> day_of (standardize_date ''2016'') = 1)
   \<and> (canonical_shape (standardize_date ''2016''))
   \<and> (recognized ''13/45/2014'' \<and> standardize_date ''13/45/2014'' = ''2014-13-45''
     \<and> month_of (standardize_date ''13/45/2014'') = 13 \<and> day_of (standardize_date ''13/45/2014'') = 45)
   \<and> (canonical_shape (standardize_date ''13/45/2014''))
   \<and> (recognized (''12.3.14'' @ [CHR 0x0A]) \<and> standardize_date (''12.3.14'' @ [CHR 0x0A]) = ''2014-03-12''
     \<and> month_of (standardize_date (''12.3.14'' @ [CHR 0x0A])) = 3
     \<and> day_of (standardize_date (''12.3.14'' @ [CHR 0x0A])) = 12)
   \<and> (recognized ''2016-02-28T00:00:00Z'' \<and> standardize_date ''2016-02-28T00:00:00Z'' = ''2016-02-28''
     \<and> month_of (standardize_date ''2016-02-28T00:00:00Z'') = 2
     \<and> day_of (standardize_date ''2016-02-28T00:00:00Z'') = 28)
   \<and> (recognized ''2016-02-28'' \<and> standardize_date ''2016-02-28'' = ''2016-02-28''
     \<and> month_of (standardize_date ''2016-02-28'') = 2 \<and> day_of (standardize_date ''2016-02-28'') = 28)
   \<and> (\<exists>s. recognized s \<and> canonical_shape (standardize_date s)
           \<and> month_of (standardize_date s) = 99 \<and> day_of (standardize_date s) = 0)
   \<and> ((\<exists>a b y e. ''2016'' = a @ ''/'' @ b @ ''/'' @ y @ e \<and> digit_str 1 2 a \<and> digit_str 1 2 b
              \<and> (digit_str 2 2 y \<or> digit_str 4 4 y) \<and> (e = [] \<or> e = [CHR 0x0A]))
       \<or> (\<exists>a b y e. ''2016'' = a @ ''.'' @ b @ ''.'' @ y @ e \<and> digit_str 1 2 a \<and> digit_str 1 2 b
              \<and> (digit_str 2 2 y \<or> digit_str 4 4 y) \<and> (e = [] \<or> e = [CHR 0x0A]))
       \<or> (\<exists>y m d rest. ''2016'' = y @ ''-'' @ m @ ''-'' @ d @ ''T'' @ rest
              \<and> digit_str 4 4 y \<and> digit_str 2 2 m \<and> digit_str 2 2 d)
       \<or> (\<exists>y m d e. ''2016'' = y @ ''-'' @ m @ ''-'' @ d @ e
              \<and> digit_str 4 4 y \<and> digit_str 2 2 m \<and> digit_str 2 2 d \<and> (e = [] \<or> e = [CHR 0x0A]))
       \<or> (\<exists>y e. ''2016'' = y @ e \<and> digit_str 4 4 y \<and> (e = [] \<or> e = [CHR 0x0A])))"
proof -
  note t = C3_canonical_shape
  note t1 = t[THEN conjunct1, rule_format]
    and t2 = t[THEN conjunct2, THEN conjunct1, rule_format]
    and t3 = t[THEN conjunct2, THEN conjunct2, THEN conjunct1, rule_format]
    and t4 = t[THEN conjunct2, THEN conjunct2, THEN conjunct2, THEN conjunct1, rule_format]
    and t5 = t[THEN conjunct2, THEN conjunct2, THEN conjunct2, THEN conjunct2, THEN conjunct1, rule_format]
    and t6 = t[THEN conjunct2, THEN conjunct2, THEN conjunct2, THEN conjunct2, THEN conjunct2,
        THEN conjunct1, rule_format]
    and t7 = t[THEN conjunct2, THEN conjunct2, THEN conjunct2, THEN conjunct2, THEN conjunct2,
        THEN conjunct2, THEN conjunct1, rule_format]
    and t8 = t[THEN conjunct2, THEN conjunct2, THEN conjunct2, THEN conjunct2, THEN conjunct2,
        THEN conjunct2, THEN conjunct2, rule_format]
  have d: "digit_str 1 2 ''13''" "digit_str 1 2 ''45''" "digit_str 2 2 ''2014'' \<or> digit_str 4 4 ''2014''"
    "digit_str 1 2 ''12''" "digit_str 1 2 ''3''" "digit_str 2 2 ''14'' \<or> digit_str 4 4 ''14''"
    "digit_str 4 4 ''2016''" "digit_str 2 2 ''02''" "digit_str 2 2 ''28''"
    by (simp_all add: digit_str_def is_digit_def)
  have e: "([]::string) = [] \<or> ([]::string) = [CHR 0x0A]" "[CHR 0x0A] = [] \<or> [CHR 0x0A] = [CHR 0x0A]"
    by simp_all
  have v: "int_of_digits ''13'' = 13" "int_of_digits ''45'' = 45" "int_of_digits ''12'' = 12"
    "int_of_digits ''3'' = 3" "int_of_digits ''02'' = 2" "int_of_digits ''28'' = 28"
    by (simp_all add: int_of_digits_def digit_val_def)
  have i7: "recognized ''2016'' \<and> standardize_date ''2016'' = ''2016'' @ ''-01-01''
        \<and> month_of (standardize_date ''2016'') = 1 \<and> day_of (standardize_date ''2016'') = 1"
    by (rule t7) (rule d)
  then have w7: "recognized ''2016'' \<and> standardize_date ''2016'' = ''2016-01-01''
        \<and> month_of (standardize_date ''2016'') = 1 \<and> day_of (standardize_date ''2016'') = 1"
    by (simp add: month_of_def day_of_def int_of_digits_def digit_val_def)
  have l: "re_match False yyyymmdd_re ''2016'' \<noteq> None \<or> re_match False yyyy_re ''2016'' \<noteq> None
           \<longrightarrow> last ''2016'' \<noteq> CHR 0x0A" by simp
  have w1: "canonical_shape (standardize_date ''2016'')"
    by (rule t1) (intro conjI w7[THEN conjunct1] l)
  have w2: "(\<exists>a b y e. ''2016'' = a @ ''/'' @ b @ ''/'' @ y @ e \<and> digit_str 1 2 a \<and> digit_str 1 2 b
              \<and> (digit_str 2 2 y \<or> digit_str 4 4 y) \<and> (e = [] \<or> e = [CHR 0x0A]))
       \<or> (\<exists>a b y e. ''2016'' = a @ ''.'' @ b @ ''.'' @ y @ e \<and> digit_str 1 2 a \<and> digit_str 1 2 b
              \<and> (digit_str 2 2 y \<or> digit_str 4 4 y) \<and> (e = [] \<or> e = [CHR 0x0A]))
       \<or> (\<exists>y m d rest. ''2016'' = y @ ''-'' @ m @ ''-'' @ d @ ''T'' @ rest
              \<and> digit_str 4 4 y \<and> digit_str 2 2 m \<and> digit_str 2 2 d)
       \<or> (\<exists>y m d e. ''2016'' = y @ ''-'' @ m @ ''-'' @ d @ e
              \<and> digit_str 4 4 y \<and> digit_str 2 2 m \<and> digit_str 2 2 d \<and> (e = [] \<or> e = [CHR 0x0A]))
       \<or> (\<exists>y e. ''2016'' = y @ e \<and> digit_str 4 4 y \<and> (e = [] \<or> e = [CHR 0x0A]))"
    by (rule t2) (rule w7[THEN conjunct1])
  have i3: "recognized (''13'' @ ''/'' @ ''45'' @ ''/'' @ ''2014'' @ [])
        \<and> standardize_date (''13'' @ ''/'' @ ''45'' @ ''/'' @ ''2014'' @ [])
            = full_year ''2014'' @ ''-'' @ zfill 2 ''13'' @ ''-'' @ zfill 2 ''45''
        \<and> month_of (standardize_date (''13'' @ ''/'' @ ''45'' @ ''/'' @ ''2014'' @ [])) = int_of_digits ''13''
        \<and> day_of (standardize_date (''13'' @ ''/'' @ ''45'' @ ''/'' @ ''2014'' @ [])) = int_of_digits ''45''"
    by (rule t3) (intro conjI d e)
  then have w3: "recognized ''13/45/2014'' \<and> standardize_date ''13/45/2014'' = ''2014-13-45''
     \<and> month_of (standardize_date ''13/45/2014'') = 13 \<and> day_of (standardize_date ''13/45/2014'') = 45"
    by (simp add: full_year_def zfill_def v month_of_def day_of_def int_of_digits_def digit_val_def)
  have l3: "re_match False yyyymmdd_re ''13/45/2014'' \<noteq> None \<or> re_match False yyyy_re ''13/45/2014'' \<noteq> None
           \<longrightarrow> last ''13/45/2014'' \<noteq> CHR 0x0A" by simp
  have w3s: "canonical_shape (standardize_date ''13/45/2014'')"
    by (rule t1) (intro conjI w3[THEN conjunct1] l3)
  have i4: "recognized (''12'' @ ''.'' @ ''3'' @ ''.'' @ ''14'' @ [CHR 0x0A])
        \<and> standardize_date (''12'' @ ''.'' @ ''3'' @ ''.'' @ ''14'' @ [CHR 0x0A])
            = full_year ''14'' @ ''-'' @ zfill 2 ''3'' @ ''-'' @ zfill 2 ''12''
        \<and> month_of (standardize_date (''12'' @ ''.'' @ ''3'' @ ''.'' @ ''14'' @ [CHR 0x0A])) = int_of_digits ''3''
        \<and> day_of (standardize_date (''12'' @ ''.'' @ ''3'' @ ''.'' @ ''14'' @ [CHR 0x0A])) = int_of_digits ''12''"
    by (rule t4) (intro conjI d e)
  then have w4: "recognized (''12.3.14'' @ [CHR 0x0A]) \<and> standardize_date (''12.3.14'' @ [CHR 0x0A]) = ''2014-03-12''
     \<and> month_of (standardize_date (''12.3.14'' @ [CHR 0x0A])) = 3
     \<and> day_of (standardize_date (''12.3.14'' @ [CHR 0x0A])) = 12"
    by (simp add: full_year_def zfill_def v month_of_def day_of_def int_of_digits_def digit_val_def)
  have i5: "recognized (''2016'' @ ''-'' @ ''02'' @ ''-'' @ ''28'' @ ''T'' @ ''00:00:00Z'')
        \<and> standardize_date (''2016'' @ ''-'' @ ''02'' @ ''-'' @ ''28'' @ ''T'' @ ''00:00:00Z'')
            = ''2016'' @ ''-'' @ ''02'' @ ''-'' @ ''28''
        \<and> month_of (standardize_date (''2016'' @ ''-'' @ ''02'' @ ''-'' @ ''28'' @ ''T'' @ ''00:00:00Z''))
            = int_of_digits ''02''
        \<and> day_of (standardize_date (''2016'' @ ''-'' @ ''02'' @ ''-'' @ ''28'' @ ''T'' @ ''00:00:00Z''))
            = int_of_digits ''28''"
    by (rule t5) (intro conjI d)
  then have w5: "recognized ''2016-02-28T00:00:00Z'' \<and> standardize_date ''2016-02-28T00:00:00Z'' = ''2016-02-28''
     \<and> month_of (standardize_date ''2016-02-28T00:00:00Z'') = 2
     \<and> day_of (standardize_date ''2016-02-28T00:00:00Z'') = 28"
    by (simp add: v month_of_def day_of_def int_of_digits_def digit_val_def)
  have i6: "recognized (''2016'' @ ''-'' @ ''02'' @ ''-'' @ ''28'')
        \<and> standardize_date (''2016'' @ ''-'' @ ''02'' @ ''-'' @ ''28'') = ''2016'' @ ''-'' @ ''02'' @ ''-'' @ ''28''
        \<and> month_of (standardize_date (''2016'' @ ''-'' @ ''02'' @ ''-'' @ ''28'')) = int_of_digits ''02''
        \<and> day_of (standardize_date (''2016'' @ ''-'' @ ''02'' @ ''-'' @ ''28'')) = int_of_digits ''28''"
    by (rule t6) (intro conjI d)
  then have w6: "recognized ''2016-02-28'' \<and> standardize_date ''2016-02-28'' = ''2016-02-28''
     \<and> month_of (standardize_date ''2016-02-28'') = 2 \<and> day_of (standardize_date ''2016-02-28'') = 28"
    by (simp add: v month_of_def day_of_def int_of_digits_def digit_val_def)
  have w8: "\<exists>s. recognized s \<and> canonical_shape (standardize_date s)
           \<and> month_of (standardize_date s) = 99 \<and> day_of (standardize_date s) = 0"
    by (rule t8) simp
  show ?thesis
    by (rule w7 w1 w3 w3s w4 w5 w6 w8 w2 conjI)+
qed

text \<open>The input \<open>13/45/2014\<close> is recognised and comes out with month 13 and day 45.\<close>

theorem C3_counterexample:
  "recognized ''13/45/2014'' \<and> standardize_date ''13/45/2014'' = ''2014-13-45''
   \<and> \<not> month_of (standardize_date ''13/45/2014'') \<le> 12
   \<and> \<not> day_of (standardize_date ''13/45/2014'') \<le> 31"
  by (simp add: recognized_def standardize_date_def mmddyy_re_def mmddyyyy_re_def pat_defs is_digit_def
      zfill_def month_of_def day_of_def int_of_digits_def digit_val_def)

end
